theory Spec2Isabelle
  imports Main "HOL-Library.Multiset"
begin

section \<open>Errors\<close>

text \<open>
  Every exception the modelled Python can raise is a value of one type. Functions that can
  raise return \<open>error + 'a\<close>; generators and loops whose earlier effects survive the raise
  return the reached state together with \<open>error option\<close> (\<open>Some e\<close>: raised \<open>e\<close>).
\<close>

datatype reason_result =
    ReasonRaises
  | Reason "string option"

text \<open>
  An \<open>HttpError\<close> of the client library. \<open>status\<close> is \<open>error.resp['status']\<close>;
  \<open>reason\<close> is what \<open>HttpErrorPolicy.reason(error)\<close> computes from the JSON body
  (\<open>drive/http.py\<close>, lines 133-143): it raises when the body cannot be decoded or is not a
  dictionary, returns \<open>None\<close> when the error list is empty or has no reason, and the first
  reason otherwise. The JSON decoding itself belongs to the library and is not modelled.
\<close>

datatype http_error = HttpErr (status: string) (reason: reason_result)

datatype error =
    HttpError http_error
  | CannotHandle http_error
  | KeyError string
  | UnknownAction int
  | TooManyRetries
  | TimedOut
  | ValueError
  | IndexError
  | NotFound string
  | Ambiguous string
  | MultipleParents
  | RecursionError
  | AttributeError
  | NotCovered string
  | OSError
  | OtherError string

section \<open>drive/http.py: error policies\<close>

definition RETRY :: int where "RETRY = 0"
definition SKIP :: int where "SKIP = 1"
definition FAIL :: int where "FAIL = 2"

record http_error_policy =
  codes :: "string list"
  reasons :: "string set option"
  print_always :: bool
  action :: int
  warning :: string

definition matches_status :: "http_error_policy \<Rightarrow> http_error \<Rightarrow> bool" where
  "matches_status p e = (status e \<in> set (codes p))"

definition matches_reason :: "http_error_policy \<Rightarrow> http_error \<Rightarrow> error + bool" where
  "matches_reason p e =
     (case reasons p of
        None \<Rightarrow> Inr True
      | Some rs \<Rightarrow>
          (case reason e of
             ReasonRaises \<Rightarrow> Inl (CannotHandle e)
           | Reason None \<Rightarrow> Inr False
           | Reason (Some s) \<Rightarrow> Inr (s \<in> rs)))"

text \<open>\<open>and\<close> is short-circuit: the reason is only read when the status matches.\<close>

definition matches :: "http_error_policy \<Rightarrow> http_error \<Rightarrow> error + bool" where
  "matches p e = (if matches_status p e then matches_reason p e else Inr False)"

text \<open>
  The list comprehension of \<open>HttpErrorTable.matching\<close>: every policy of the table is
  tested, in order, and an exception of any test leaves the comprehension.
\<close>

fun matching_policies :: "http_error_policy list \<Rightarrow> http_error \<Rightarrow> error + http_error_policy list" where
  "matching_policies [] e = Inr []"
| "matching_policies (p # ps) e =
     (case matches p e of
        Inl x \<Rightarrow> Inl x
      | Inr b \<Rightarrow>
          (case matching_policies ps e of
             Inl x \<Rightarrow> Inl x
           | Inr qs \<Rightarrow> Inr (if b then p # qs else qs)))"

definition matching :: "http_error_policy list \<Rightarrow> http_error \<Rightarrow> error + (http_error_policy option \<times> string)" where
  "matching tbl e =
     (case matching_policies tbl e of
        Inl x \<Rightarrow> Inl x
      | Inr qs \<Rightarrow> Inr (case qs of [] \<Rightarrow> None | q # _ \<Rightarrow> Some q, status e))"

definition DEFAULT_POLICIES :: "http_error_policy list" where
  "DEFAULT_POLICIES =
     [\<lparr>codes = [''104''], reasons = None, print_always = True, action = RETRY,
        warning = ''Connection reset by peer while processing {rid}.''\<rparr>,
      \<lparr>codes = [''404''], reasons = None, print_always = True, action = SKIP,
        warning = ''Request {rid} resulted in a 404 (not found) and has been skipped. Is your snapshot stale?''\<rparr>,
      \<lparr>codes = [''403'', ''429''], reasons = Some {''rateLimitExceeded'', ''userRateLimitExceeded''},
        print_always = False, action = RETRY,
        warning = ''Request {rid} resulted in a 4XX. Slowing down.''\<rparr>,
      \<lparr>codes = [''500''], reasons = None, print_always = False, action = RETRY,
        warning = ''The API returned a server error (500) for {rid}. Retrying.''\<rparr>]"

section \<open>drive/http.py: ErrorHandlingRunner\<close>

text \<open>
  \<open>_Request(request, id)\<close> and \<open>RequestResult(id, response, error)\<close> are named tuples.
  Request ids are strings, so \<open>str(request.id)\<close> is the id itself.
\<close>

datatype 'q request = Request (request: 'q) (request_id: string)

datatype 'p request_result =
  RequestResult (result_id: string) (response: "'p option") (result_error: "http_error option")

text \<open>
  The runner object. \<open>timeout = None\<close> stands for \<open>float('Inf')\<close>, the default.
  Two fields stand for the world outside:
  \<^item> \<open>delegate n reqs\<close> is what the generator \<open>self._run_requests(reqs)\<close> produces in the
    \<open>n\<close>-th pass (counted from 0): the results it yields, then the exception it ends with,
    if any. \<open>SequentialRequestRunner\<close> below is one such delegate.
  \<^item> \<open>elapsed n\<close> is \<open>time.monotonic() - start\<close> at the \<open>n\<close>-th evaluation of the loop
    condition (counted from 0).
  Times are whole numbers of some unit; only their order matters.
\<close>

record ('q, 'p) runner =
  requests :: "'q request list"
  min_backoff :: int
  max_retries :: int
  timeout :: "int option"
  policies :: "http_error_policy list"
  delegate :: "nat \<Rightarrow> 'q request list \<Rightarrow> 'p request_result list \<times> error option"
  elapsed :: "nat \<Rightarrow> int"

text \<open>
  The local variables of \<open>execute\<close>, and what it has done so far: the results yielded to the
  caller, the warnings printed (template and request id), the lengths of the sleeps, and the
  number of passes started.
\<close>

record ('q, 'p) exec_state =
  pending :: "(string \<times> 'q request) list"
  warnings :: "string set"
  attempts :: int
  backoff :: int
  yielded :: "'p request_result list"
  printed :: "(string \<times> string) list"
  slept :: "int list"
  passes :: nat

text \<open>A dictionary keeps the position of a key's first insertion and its last value.\<close>

fun dict_set :: "(string \<times> 'a) list \<Rightarrow> string \<Rightarrow> 'a \<Rightarrow> (string \<times> 'a) list" where
  "dict_set [] k v = [(k, v)]"
| "dict_set ((k', v') # d) k v = (if k' = k then (k, v) # d else (k', v') # dict_set d k v)"

definition dict_del :: "string \<Rightarrow> (string \<times> 'a) list \<Rightarrow> error + (string \<times> 'a) list" where
  "dict_del k d =
     (case map_of d k of
        None \<Rightarrow> Inl (KeyError k)
      | Some _ \<Rightarrow> Inr (filter (\<lambda>kv. fst kv \<noteq> k) d))"

definition initial_pending :: "'q request list \<Rightarrow> (string \<times> 'q request) list" where
  "initial_pending rqs = foldl (\<lambda>d rq. dict_set d (request_id rq) rq) [] rqs"

definition within_timeout :: "int \<Rightarrow> int option \<Rightarrow> bool" where
  "within_timeout t lim = (case lim of None \<Rightarrow> True | Some l \<Rightarrow> t < l)"

text \<open>The body of the \<open>for result in ...\<close> loop (lines 209-245).\<close>

definition handle_result ::
  "('q, 'p) runner \<Rightarrow> 'p request_result \<Rightarrow> ('q, 'p) exec_state \<Rightarrow> error option \<times> ('q, 'p) exec_state" where
  "handle_result r res st =
     (case result_error res of
        None \<Rightarrow>
          (case dict_del (result_id res) (pending st) of
             Inl x \<Rightarrow> (Some x, st)
           | Inr d \<Rightarrow>
               (None, st\<lparr>pending := d, yielded := yielded st @ [res],
                          attempts := 1, backoff := min_backoff r\<rparr>))
      | Some err \<Rightarrow>
          (case matching (policies r) err of
             Inl x \<Rightarrow> (Some x, st)
           | Inr (None, error_code) \<Rightarrow> (Some (HttpError err), st)
           | Inr (Some policy, error_code) \<Rightarrow>
               (let st1 =
                  (if print_always policy \<or> error_code \<notin> warnings st
                   then st\<lparr>printed := printed st @ [(warning policy, result_id res)],
                            warnings := insert error_code (warnings st)\<rparr>
                   else st)
                in if action policy = SKIP then
                     (case dict_del (result_id res) (pending st1) of
                        Inl x \<Rightarrow> (Some x, st1)
                      | Inr d \<Rightarrow> (None, st1\<lparr>pending := d\<rparr>))
                   else if action policy = RETRY then (None, st1)
                   else if action policy = FAIL then (Some (HttpError err), st1)
                   else (Some (UnknownAction (action policy)), st1))))"

text \<open>The \<open>for\<close> loop: results are consumed as they arrive, and a raise ends it.\<close>

fun consume ::
  "('q, 'p) runner \<Rightarrow> 'p request_result list \<Rightarrow> ('q, 'p) exec_state \<Rightarrow> error option \<times> ('q, 'p) exec_state" where
  "consume r [] st = (None, st)"
| "consume r (res # rest) st =
     (case handle_result r res st of
        (Some x, st') \<Rightarrow> (Some x, st')
      | (None, st') \<Rightarrow> consume r rest st')"

text \<open>
  One pass (lines 208-245): the delegate runs over \<open>pending.values()\<close>, which
  \<open>_run_requests\<close> copies into the delegate before the first result is produced.
\<close>

definition run_pass :: "('q, 'p) runner \<Rightarrow> ('q, 'p) exec_state \<Rightarrow> error option \<times> ('q, 'p) exec_state" where
  "run_pass r st =
     (case delegate r (passes st) (map snd (pending st)) of
        (results, exc) \<Rightarrow>
          (case consume r results (st\<lparr>passes := Suc (passes st)\<rparr>) of
             (Some x, st') \<Rightarrow> (Some x, st')
           | (None, st') \<Rightarrow> (exc, st')))"

text \<open>Lines 252-257. \<open>time.sleep\<close> raises \<open>ValueError\<close> on a negative length.\<close>

definition back_off :: "('q, 'p) exec_state \<Rightarrow> error option \<times> ('q, 'p) exec_state" where
  "back_off st =
     (if backoff st < 0 then (Some ValueError, st)
      else (None, st\<lparr>slept := slept st @ [backoff st],
                      backoff := backoff st * 2,
                      attempts := attempts st + 1\<rparr>))"

definition loop_condition :: "('q, 'p) runner \<Rightarrow> ('q, 'p) exec_state \<Rightarrow> bool" where
  "loop_condition r st =
     (within_timeout (elapsed r (passes st)) (timeout r) \<and> attempts st \<le> max_retries r)"

lemma dict_del_length:
  "dict_del k d = Inr d' \<Longrightarrow> length d' < length d"
proof -
  assume a: "dict_del k d = Inr d'"
  then obtain v where v: "map_of d k = Some v" and d': "d' = filter (\<lambda>kv. fst kv \<noteq> k) d"
    by (auto simp: dict_del_def split: option.splits)
  from v have "(k, v) \<in> set d" by (rule map_of_SomeD)
  then show ?thesis unfolding d' by (intro length_filter_less[where x="(k, v)"]) auto
qed

lemma handle_result_measure:
  assumes "handle_result r res st = (None, st')"
  shows "length (pending st') < length (pending st)
         \<or> (length (pending st') = length (pending st) \<and> attempts st' = attempts st)"
  using assms
  by (auto simp: handle_result_def Let_def
      split: option.splits sum.splits if_splits prod.splits dest: dict_del_length)

lemma handle_result_passes:
  "handle_result r res st = (x, st') \<Longrightarrow> passes st' = passes st"
  by (auto simp: handle_result_def Let_def
      split: option.splits sum.splits if_splits prod.splits)

lemma consume_measure:
  "consume r rs st = (None, st') \<Longrightarrow>
     length (pending st') < length (pending st)
     \<or> (length (pending st') = length (pending st) \<and> attempts st' = attempts st)"
proof (induction rs arbitrary: st)
  case Nil
  then show ?case by simp
next
  case (Cons res rest)
  from Cons.prems obtain st1 where h: "handle_result r res st = (None, st1)"
    and c: "consume r rest st1 = (None, st')"
    by (auto split: prod.splits option.splits)
  from handle_result_measure[OF h] Cons.IH[OF c] show ?case by auto
qed

lemma run_pass_measure:
  assumes "run_pass r st = (None, st')"
  shows "length (pending st') < length (pending st)
         \<or> (length (pending st') = length (pending st) \<and> attempts st' = attempts st)"
proof -
  obtain results exc where d: "delegate r (passes st) (map snd (pending st)) = (results, exc)"
    by (cases "delegate r (passes st) (map snd (pending st))")
  with assms have "consume r results (st\<lparr>passes := Suc (passes st)\<rparr>) = (None, st')"
    by (auto simp: run_pass_def split: prod.splits option.splits)
  from consume_measure[OF this] show ?thesis by simp
qed

text \<open>
  The \<open>while\<close> loop of \<open>execute\<close> (lines 207-263). It ends: a pass that yields a result
  shortens \<open>pending\<close>, and a pass that yields none leaves \<open>attempts\<close> one higher.
\<close>

function run_loop :: "('q, 'p) runner \<Rightarrow> ('q, 'p) exec_state \<Rightarrow> error option \<times> ('q, 'p) exec_state" where
  "run_loop r st =
     (if loop_condition r st then
        (case run_pass r st of
           (Some x, st') \<Rightarrow> (Some x, st')
         | (None, st') \<Rightarrow>
             (if pending st' = [] then (None, st')
              else (case back_off st' of
                      (Some x, st'') \<Rightarrow> (Some x, st'')
                    | (None, st'') \<Rightarrow> run_loop r st'')))
      else (Some (if attempts st > max_retries r then TooManyRetries else TimedOut), st))"
  by pat_completeness auto
termination
proof (relation "measures [\<lambda>(r, st). length (pending st),
                           \<lambda>(r, st). nat (max_retries r + 1 - attempts st)]")
  show "wf (measures [\<lambda>(r, st). length (pending st),
                      \<lambda>(r :: ('q, 'p) runner, st :: ('q, 'p) exec_state). nat (max_retries r + 1 - attempts st)])"
    by simp
next
  fix r :: "('q, 'p) runner" and st st' st'' :: "('q, 'p) exec_state" and x y :: "error option"
  assume c: "loop_condition r st"
    and p: "(x, st') = run_pass r st" "x = None"
    and b: "(y, st'') = back_off st'" "y = None"
  from p have rp: "run_pass r st = (None, st')" by simp
  from b have bo: "back_off st' = (None, st'')" by simp
  then have eq: "pending st'' = pending st'" "attempts st'' = attempts st' + 1"
    by (auto simp: back_off_def split: if_splits)
  from c have le: "attempts st \<le> max_retries r" by (simp add: loop_condition_def)
  from run_pass_measure[OF rp] eq le
  show "((r, st''), (r, st)) \<in> measures [\<lambda>(r, st). length (pending st),
                           \<lambda>(r, st). nat (max_retries r + 1 - attempts st)]"
    by auto
qed

declare run_loop.simps [simp del]

text \<open>Lines 201-204: the state in which the loop is entered.\<close>

definition initial_state :: "('q, 'p) runner \<Rightarrow> ('q, 'p) exec_state" where
  "initial_state r =
     \<lparr>pending = initial_pending (requests r), warnings = {}, attempts = 1,
      backoff = min_backoff r, yielded = [], printed = [], slept = [], passes = 0\<rparr>"

definition execute :: "('q, 'p) runner \<Rightarrow> error option \<times> ('q, 'p) exec_state" where
  "execute r = run_loop r (initial_state r)"

section \<open>The exhaustion boundary of \<open>execute\<close>\<close>

text \<open>
  A result that carries an error for which the policy table selects a policy whose action is
  \<open>RETRY\<close>, and a runner whose delegate, in every pass, ends normally and produces only such
  results: the policy table always answers Retry and every operation always errors.
\<close>

definition retry_error :: "('q, 'p) runner \<Rightarrow> 'p request_result \<Rightarrow> bool" where
  "retry_error r res =
     (case result_error res of
        None \<Rightarrow> False
      | Some e \<Rightarrow>
          (case matching (policies r) e of
             Inr (Some p, c) \<Rightarrow> action p = RETRY
           | _ \<Rightarrow> False))"

definition always_retry :: "('q, 'p) runner \<Rightarrow> bool" where
  "always_retry r =
     (\<forall>n reqs. snd (delegate r n reqs) = None \<and> list_all (retry_error r) (fst (delegate r n reqs)))"

lemma handle_result_retry:
  assumes "retry_error r res"
  shows "\<exists>w p. handle_result r res st = (None, st\<lparr>warnings := w, printed := p\<rparr>)"
proof -
  from assms obtain e pol c where e: "result_error res = Some e"
    and m: "matching (policies r) e = Inr (Some pol, c)" and a: "action pol = RETRY"
    by (auto simp: retry_error_def split: option.splits sum.splits prod.splits)
  show ?thesis
  proof (cases "print_always pol \<or> c \<notin> warnings st")
    case True
    then have "handle_result r res st =
      (None, st\<lparr>warnings := insert c (warnings st), printed := printed st @ [(warning pol, result_id res)]\<rparr>)"
      using e m a by (simp add: handle_result_def RETRY_def SKIP_def)
    then show ?thesis by blast
  next
    case False
    then have "handle_result r res st = (None, st\<lparr>warnings := warnings st, printed := printed st\<rparr>)"
      using e m a by (simp add: handle_result_def RETRY_def SKIP_def)
    then show ?thesis by blast
  qed
qed

lemma consume_retry:
  "list_all (retry_error r) rs \<Longrightarrow> \<exists>w p. consume r rs st = (None, st\<lparr>warnings := w, printed := p\<rparr>)"
proof (induction rs arbitrary: st)
  case Nil
  have "consume r [] st = (None, st\<lparr>warnings := warnings st, printed := printed st\<rparr>)" by simp
  then show ?case by blast
next
  case (Cons res rest)
  then have h: "retry_error r res" and t: "list_all (retry_error r) rest" by simp_all
  from handle_result_retry[OF h, of st] obtain w p
    where 1: "handle_result r res st = (None, st\<lparr>warnings := w, printed := p\<rparr>)" by blast
  from Cons.IH[OF t, of "st\<lparr>warnings := w, printed := p\<rparr>"] obtain w' p'
    where 2: "consume r rest (st\<lparr>warnings := w, printed := p\<rparr>) = (None, st\<lparr>warnings := w', printed := p'\<rparr>)"
    by auto
  from 1 2 have "consume r (res # rest) st = (None, st\<lparr>warnings := w', printed := p'\<rparr>)" by simp
  then show ?case by blast
qed

lemma run_pass_retry:
  assumes "always_retry r"
  shows "\<exists>w p. run_pass r st = (None, st\<lparr>passes := Suc (passes st), warnings := w, printed := p\<rparr>)"
proof -
  obtain rs exc where d: "delegate r (passes st) (map snd (pending st)) = (rs, exc)"
    by (cases "delegate r (passes st) (map snd (pending st))")
  with assms have exc: "exc = None" and all: "list_all (retry_error r) rs"
    unfolding always_retry_def by (metis snd_conv, metis fst_conv)
  from consume_retry[OF all, of "st\<lparr>passes := Suc (passes st)\<rparr>"] obtain w p where
    "consume r rs (st\<lparr>passes := Suc (passes st)\<rparr>) = (None, st\<lparr>passes := Suc (passes st), warnings := w, printed := p\<rparr>)"
    by auto
  with d exc have "run_pass r st = (None, st\<lparr>passes := Suc (passes st), warnings := w, printed := p\<rparr>)"
    by (simp add: run_pass_def)
  then show ?thesis by blast
qed

text \<open>One iteration of the loop when every result is retried.\<close>

lemma run_loop_retry_step:
  assumes ar: "always_retry r" and pe: "pending st \<noteq> []" and bo: "0 \<le> backoff st"
    and lc: "loop_condition r st"
  shows "\<exists>w p. run_loop r st =
     run_loop r (st\<lparr>passes := Suc (passes st), warnings := w, printed := p,
                    slept := slept st @ [backoff st], backoff := backoff st * 2,
                    attempts := attempts st + 1\<rparr>)"
proof -
  from run_pass_retry[OF ar, of st] obtain w p where
    rp: "run_pass r st = (None, st\<lparr>passes := Suc (passes st), warnings := w, printed := p\<rparr>)" by blast
  have "run_loop r st =
     run_loop r (st\<lparr>passes := Suc (passes st), warnings := w, printed := p,
                    slept := slept st @ [backoff st], backoff := backoff st * 2,
                    attempts := attempts st + 1\<rparr>)"
    by (subst run_loop.simps) (use rp pe bo lc in \<open>simp add: back_off_def\<close>)
  then show ?thesis by blast
qed

lemma run_loop_retry_exhaust:
  assumes ar: "always_retry r"
  shows "pending st \<noteq> [] \<Longrightarrow> 0 \<le> backoff st \<Longrightarrow>
     d = nat (max_retries r + 1 - attempts st) \<Longrightarrow>
     (\<And>j. j < d \<Longrightarrow> within_timeout (elapsed r (passes st + j)) (timeout r)) \<Longrightarrow>
     fst (run_loop r st) = Some TooManyRetries \<and>
     passes (snd (run_loop r st)) = passes st + d \<and>
     yielded (snd (run_loop r st)) = yielded st \<and>
     slept (snd (run_loop r st)) = slept st @ map (\<lambda>i. backoff st * 2 ^ i) [0..<d]"
proof (induction d arbitrary: st)
  case 0
  then have "attempts st > max_retries r" by simp
  then have "run_loop r st = (Some TooManyRetries, st)"
    by (subst run_loop.simps) (simp add: loop_condition_def)
  then show ?case by simp
next
  case (Suc d)
  from Suc.prems(3) have le: "attempts st \<le> max_retries r" by linarith
  from Suc.prems(4)[of 0] have "within_timeout (elapsed r (passes st)) (timeout r)" by simp
  with le have lc: "loop_condition r st" by (simp add: loop_condition_def)
  from run_loop_retry_step[OF ar Suc.prems(1,2) lc] obtain w p where
    eq: "run_loop r st = run_loop r (st\<lparr>passes := Suc (passes st), warnings := w, printed := p,
                    slept := slept st @ [backoff st], backoff := backoff st * 2,
                    attempts := attempts st + 1\<rparr>)" (is "_ = run_loop r ?st2") by blast
  have 1: "pending ?st2 \<noteq> []" using Suc.prems(1) by simp
  have 2: "0 \<le> backoff ?st2" using Suc.prems(2) by simp
  have 3: "d = nat (max_retries r + 1 - attempts ?st2)" using Suc.prems(3) by simp
  have 4: "\<And>j. j < d \<Longrightarrow> within_timeout (elapsed r (passes ?st2 + j)) (timeout r)"
    using Suc.prems(4)[of "Suc _"] by simp
  from Suc.IH[OF 1 2 3 4] have ih:
    "fst (run_loop r ?st2) = Some TooManyRetries"
    "passes (snd (run_loop r ?st2)) = passes ?st2 + d"
    "yielded (snd (run_loop r ?st2)) = yielded ?st2"
    "slept (snd (run_loop r ?st2)) = slept ?st2 @ map (\<lambda>i. backoff ?st2 * 2 ^ i) [0..<d]"
    by simp_all
  have m: "map (\<lambda>i. backoff st * 2 ^ i) [0..<Suc d] = backoff st # map (\<lambda>i. backoff st * 2 * 2 ^ i) [0..<d]"
  proof -
    have "[0..<Suc d] = 0 # map Suc [0..<d]"
      by (simp add: upt_conv_Cons map_Suc_upt del: upt_Suc)
    then show ?thesis by (simp add: comp_def del: upt_Suc)
  qed
  show ?case unfolding eq using ih m by simp
qed

lemma run_loop_retry_timeout:
  assumes ar: "always_retry r"
  shows "pending st \<noteq> [] \<Longrightarrow> 0 \<le> backoff st \<Longrightarrow>
     k < nat (max_retries r + 1 - attempts st) \<Longrightarrow>
     \<not> within_timeout (elapsed r (passes st + k)) (timeout r) \<Longrightarrow>
     (\<And>j. j < k \<Longrightarrow> within_timeout (elapsed r (passes st + j)) (timeout r)) \<Longrightarrow>
     fst (run_loop r st) = Some TimedOut \<and>
     passes (snd (run_loop r st)) = passes st + k \<and>
     yielded (snd (run_loop r st)) = yielded st"
proof (induction k arbitrary: st)
  case 0
  then have le: "attempts st \<le> max_retries r" by linarith
  from 0 have "\<not> loop_condition r st" by (simp add: loop_condition_def)
  then have "run_loop r st = (Some TimedOut, st)"
    by (subst run_loop.simps) (use le in simp)
  then show ?case by simp
next
  case (Suc k)
  from Suc.prems(3) have le: "attempts st \<le> max_retries r" by linarith
  from Suc.prems(5)[of 0] have "within_timeout (elapsed r (passes st)) (timeout r)" by simp
  with le have lc: "loop_condition r st" by (simp add: loop_condition_def)
  from run_loop_retry_step[OF ar Suc.prems(1,2) lc] obtain w p where
    eq: "run_loop r st = run_loop r (st\<lparr>passes := Suc (passes st), warnings := w, printed := p,
                    slept := slept st @ [backoff st], backoff := backoff st * 2,
                    attempts := attempts st + 1\<rparr>)" (is "_ = run_loop r ?st2") by blast
  have 1: "pending ?st2 \<noteq> []" using Suc.prems(1) by simp
  have 2: "0 \<le> backoff ?st2" using Suc.prems(2) by simp
  have 3: "k < nat (max_retries r + 1 - attempts ?st2)" using Suc.prems(3) by simp
  have 4: "\<not> within_timeout (elapsed r (passes ?st2 + k)) (timeout r)" using Suc.prems(4) by simp
  have 5: "\<And>j. j < k \<Longrightarrow> within_timeout (elapsed r (passes ?st2 + j)) (timeout r)"
    using Suc.prems(5)[of "Suc _"] by simp
  from Suc.IH[OF 1 2 3 4 5] show ?case unfolding eq by simp
qed


lemma dict_set_not_Nil: "dict_set d k v \<noteq> []"
  by (cases d) (auto split: if_splits)

lemma initial_pending_not_Nil: "rqs \<noteq> [] \<Longrightarrow> initial_pending rqs \<noteq> []"
proof -
  have "d \<noteq> [] \<or> rqs \<noteq> [] \<Longrightarrow> foldl (\<lambda>d rq. dict_set d (request_id rq) rq) d rqs \<noteq> []"
    for d :: "(string \<times> 'a request) list"
    by (induction rqs arbitrary: d) (auto simp: dict_set_not_Nil)
  then show "rqs \<noteq> [] \<Longrightarrow> initial_pending rqs \<noteq> []"
    unfolding initial_pending_def by blast
qed

text \<open>The timeout does not end the loop before the attempts do.\<close>

definition never_timed_out :: "('q, 'p) runner \<Rightarrow> bool" where
  "never_timed_out r = (\<forall>k < nat (max_retries r). within_timeout (elapsed r k) (timeout r))"

text \<open>
  C1. When the policy table always answers Retry and every operation always errors,
  \<open>execute\<close> raises after exactly \<open>max_retries\<close> passes, never more, and with
  "Too many retry attempts" when the timeout is not hit before; when the timeout is hit
  first, it raises "Operation timed out" at the first check that finds the time elapsed,
  after fewer passes. Nothing is yielded. (\<open>time.sleep\<close> refuses a negative length, hence
  \<open>0 \<le> min_backoff\<close>.)
\<close>

theorem execute_exhaustion_boundary:
  fixes r :: "('q, 'p) runner"
  assumes ar: "always_retry r" and ne: "requests r \<noteq> []" and mb: "0 \<le> min_backoff r"
  shows "(if never_timed_out r
          then fst (execute r) = Some TooManyRetries
               \<and> passes (snd (execute r)) = nat (max_retries r)
          else fst (execute r) = Some TimedOut
               \<and> passes (snd (execute r)) = (LEAST k. \<not> within_timeout (elapsed r k) (timeout r))
               \<and> passes (snd (execute r)) < nat (max_retries r))
         \<and> yielded (snd (execute r)) = []"
proof -
  let ?st = "initial_state r"
  have st: "passes ?st = 0" "yielded ?st = []" by (simp_all add: initial_state_def)
  have pe: "pending ?st \<noteq> []" using initial_pending_not_Nil[OF ne] by (simp add: initial_state_def)
  have bo: "0 \<le> backoff ?st" using mb by (simp add: initial_state_def)
  have d: "nat (max_retries r) = nat (max_retries r + 1 - attempts ?st)" by (simp add: initial_state_def)
  show ?thesis
  proof (cases "never_timed_out r")
    case True
    then have "\<And>j. j < nat (max_retries r) \<Longrightarrow> within_timeout (elapsed r (passes ?st + j)) (timeout r)"
      by (simp add: never_timed_out_def st)
    from run_loop_retry_exhaust[OF ar pe bo d this] True show ?thesis
      by (simp add: execute_def st)
  next
    case False
    define k where "k = (LEAST k. \<not> within_timeout (elapsed r k) (timeout r))"
    from False obtain k0 where k0: "k0 < nat (max_retries r)" "\<not> within_timeout (elapsed r k0) (timeout r)"
      by (auto simp: never_timed_out_def)
    then have nk: "\<not> within_timeout (elapsed r k) (timeout r)"
      unfolding k_def by (metis (mono_tags, lifting) LeastI)
    have "k \<le> k0" unfolding k_def using k0(2) by (rule Least_le)
    with k0 have lt: "k < nat (max_retries r + 1 - attempts ?st)" using d by simp
    have before: "\<And>j. j < k \<Longrightarrow> within_timeout (elapsed r (passes ?st + j)) (timeout r)"
      unfolding k_def st using not_less_Least by fastforce
    have nk': "\<not> within_timeout (elapsed r (passes ?st + k)) (timeout r)" using nk by (simp add: st)
    from run_loop_retry_timeout[OF ar pe bo lt nk' before] False lt d show ?thesis
      by (simp add: execute_def k_def st)
  qed
qed

text \<open>A runner whose single request fails with status 500 in every pass.\<close>

definition failing_delegate :: "string \<Rightarrow> nat \<Rightarrow> unit request list \<Rightarrow> unit request_result list \<times> error option" where
  "failing_delegate code n reqs =
     (map (\<lambda>rq. RequestResult (request_id rq) None (Some (HttpErr code (Reason None)))) reqs, None)"

definition retry_runner :: "int option \<Rightarrow> (unit, unit) runner" where
  "retry_runner lim =
     \<lparr>requests = [Request () ''a''], min_backoff = 5, max_retries = 3, timeout = lim,
      policies = DEFAULT_POLICIES, delegate = failing_delegate ''500'', elapsed = (\<lambda>n. int n)\<rparr>"

lemma matching_default_500:
  "matching DEFAULT_POLICIES (HttpErr ''500'' (Reason None)) = Inr (Some (DEFAULT_POLICIES ! 3), ''500'')"
  by (simp add: matching_def DEFAULT_POLICIES_def matches_def matches_status_def matches_reason_def)

lemma always_retry_retry_runner: "always_retry (retry_runner lim)"
  by (simp add: always_retry_def retry_runner_def failing_delegate_def list_all_iff retry_error_def
      matching_default_500) (simp add: DEFAULT_POLICIES_def)

theorem execute_exhaustion_boundary_witness:
  "always_retry (retry_runner None) \<and> requests (retry_runner None) \<noteq> []
   \<and> 0 \<le> min_backoff (retry_runner None) \<and> never_timed_out (retry_runner None)
   \<and> fst (execute (retry_runner None)) = Some TooManyRetries
   \<and> passes (snd (execute (retry_runner None))) = 3
   \<and> yielded (snd (execute (retry_runner None))) = []
   \<and> always_retry (retry_runner (Some 2)) \<and> \<not> never_timed_out (retry_runner (Some 2))
   \<and> fst (execute (retry_runner (Some 2))) = Some TimedOut
   \<and> passes (snd (execute (retry_runner (Some 2)))) = 2"
proof -
  have n: "never_timed_out (retry_runner None)"
    by (simp add: never_timed_out_def retry_runner_def within_timeout_def)
  have h: "requests (retry_runner None) \<noteq> []" "0 \<le> min_backoff (retry_runner None)"
    by (simp_all add: retry_runner_def)
  have m: "nat (max_retries (retry_runner None)) = 3" by (simp add: retry_runner_def)
  have n2: "\<not> never_timed_out (retry_runner (Some 2))"
    by (auto simp: never_timed_out_def retry_runner_def within_timeout_def intro!: exI[of _ 2])
  have h2: "requests (retry_runner (Some 2)) \<noteq> []" "0 \<le> min_backoff (retry_runner (Some 2))"
    by (simp_all add: retry_runner_def)
  have l: "(LEAST k. \<not> within_timeout (elapsed (retry_runner (Some 2)) k) (timeout (retry_runner (Some 2)))) = 2"
    by (rule Least_equality) (auto simp: retry_runner_def within_timeout_def)
  from execute_exhaustion_boundary[OF always_retry_retry_runner h] n m
  have a: "fst (execute (retry_runner None)) = Some TooManyRetries
           \<and> passes (snd (execute (retry_runner None))) = 3
           \<and> yielded (snd (execute (retry_runner None))) = []"
    by simp
  from execute_exhaustion_boundary[OF always_retry_retry_runner h2] n2 l
  have b: "fst (execute (retry_runner (Some 2))) = Some TimedOut
           \<and> passes (snd (execute (retry_runner (Some 2)))) = 2"
    by simp
  from a b n n2 h always_retry_retry_runner show ?thesis by simp
qed

section \<open>Backoff and attempts across passes\<close>

text \<open>A result without an error, and the results the delegate produces in the pass that starts in a state.\<close>

definition succeeded :: "'p request_result \<Rightarrow> bool" where
  "succeeded res = (result_error res = None)"

lemma handle_result_counters:
  assumes "handle_result r res st = (None, st')"
  shows "(if succeeded res
          then backoff st' = min_backoff r \<and> attempts st' = 1 \<and> yielded st' = yielded st @ [res]
          else backoff st' = backoff st \<and> attempts st' = attempts st \<and> yielded st' = yielded st)
         \<and> slept st' = slept st"
  using assms
  by (auto simp: handle_result_def succeeded_def Let_def
      split: option.splits sum.splits if_splits prod.splits)

lemma consume_counters:
  "consume r rs st = (None, st') \<Longrightarrow>
     (if list_ex succeeded rs
      then backoff st' = min_backoff r \<and> attempts st' = 1
      else backoff st' = backoff st \<and> attempts st' = attempts st)
     \<and> yielded st' = yielded st @ filter succeeded rs
     \<and> slept st' = slept st"
proof (induction rs arbitrary: st)
  case Nil
  then show ?case by simp
next
  case (Cons res rest)
  from Cons.prems obtain st1 where h: "handle_result r res st = (None, st1)"
    and c: "consume r rest st1 = (None, st')"
    by (auto split: prod.splits option.splits)
  from handle_result_counters[OF h] Cons.IH[OF c] show ?case
    by (cases "succeeded res"; cases "list_ex succeeded rest") simp_all
qed

lemma run_pass_consume:
  assumes "fst (run_pass r st) = None"
  shows "consume r (fst (delegate r (passes st) (map snd (pending st)))) (st\<lparr>passes := Suc (passes st)\<rparr>)
         = (None, snd (run_pass r st))"
  using assms
  by (auto simp: run_pass_def split: prod.splits option.splits)

definition pass_results :: "('q, 'p) runner \<Rightarrow> ('q, 'p) exec_state \<Rightarrow> 'p request_result list" where
  "pass_results r st = fst (delegate r (passes st) (map snd (pending st)))"

text \<open>
  C2. For a pass (one sweep over the delegate's results) that ends without raising: if it
  yielded at least one successful outcome, it leaves \<open>backoff = min_backoff\<close> and
  \<open>attempts = 1\<close>; if it yielded none, it leaves both as they were. When \<open>pending\<close> is not
  empty after the pass, the runner sleeps for that backoff and then doubles it and adds one to
  \<open>attempts\<close>, and the loop goes on from there: after a pass without a success the backoff is
  twice what it was before the pass, after a pass with a success the sleep is \<open>min_backoff\<close>
  long. (\<open>time.sleep\<close> refuses a negative length, hence \<open>0 \<le> backoff\<close>.)
\<close>

theorem backoff_after_pass:
  fixes r :: "('q, 'p) runner"
  assumes ok: "fst (run_pass r st) = None"
  defines "st' \<equiv> snd (run_pass r st)"
  shows "(if list_ex succeeded (pass_results r st)
          then backoff st' = min_backoff r \<and> attempts st' = 1
          else backoff st' = backoff st \<and> attempts st' = attempts st)
         \<and> (pending st' \<noteq> [] \<and> 0 \<le> backoff st' \<longrightarrow>
                  fst (back_off st') = None
                  \<and> slept (snd (back_off st')) = slept st @ [backoff st']
                  \<and> backoff (snd (back_off st')) = 2 * backoff st'
                  \<and> attempts (snd (back_off st')) = attempts st' + 1
                  \<and> (loop_condition r st \<longrightarrow> run_loop r st = run_loop r (snd (back_off st'))))"
proof -
  from run_pass_consume[OF ok] have c:
    "consume r (pass_results r st) (st\<lparr>passes := Suc (passes st)\<rparr>) = (None, st')"
    by (simp add: pass_results_def st'_def)
  from consume_counters[OF c] have 1:
    "if list_ex succeeded (pass_results r st)
     then backoff st' = min_backoff r \<and> attempts st' = 1
     else backoff st' = backoff st \<and> attempts st' = attempts st"
    and sl: "slept st' = slept st" by simp_all
  have rp: "run_pass r st = (None, st')" using ok by (simp add: st'_def prod_eq_iff)
  have 2: "fst (back_off st') = None
                  \<and> slept (snd (back_off st')) = slept st @ [backoff st']
                  \<and> backoff (snd (back_off st')) = 2 * backoff st'
                  \<and> attempts (snd (back_off st')) = attempts st' + 1
                  \<and> (loop_condition r st \<longrightarrow> run_loop r st = run_loop r (snd (back_off st')))"
    if pe: "pending st' \<noteq> []" and bo: "0 \<le> backoff st'"
  proof -
    have b: "back_off st' = (None, st'\<lparr>slept := slept st' @ [backoff st'],
                      backoff := backoff st' * 2, attempts := attempts st' + 1\<rparr>)"
      using bo by (simp add: back_off_def)
    have "run_loop r st = run_loop r (snd (back_off st'))" if "loop_condition r st"
      by (subst run_loop.simps) (use that rp pe b in simp)
    with b sl show ?thesis by simp
  qed
  from 1 2 show ?thesis by simp
qed

text \<open>
  A runner with two requests: \<open>a\<close> succeeds, \<open>b\<close> fails with status 500 in every pass; and the
  state in which its second pass starts.
\<close>

definition mixed_delegate :: "nat \<Rightarrow> unit request list \<Rightarrow> unit request_result list \<times> error option" where
  "mixed_delegate n reqs =
     (map (\<lambda>rq. if request_id rq = ''a'' then RequestResult ''a'' (Some ()) None
                 else RequestResult (request_id rq) None (Some (HttpErr ''500'' (Reason None)))) reqs,
      None)"

definition mixed_runner :: "(unit, unit) runner" where
  "mixed_runner =
     \<lparr>requests = [Request () ''a'', Request () ''b''], min_backoff = 5, max_retries = 3,
      timeout = None, policies = DEFAULT_POLICIES, delegate = mixed_delegate, elapsed = (\<lambda>n. int n)\<rparr>"

definition waiting_state :: "(unit, unit) exec_state" where
  "waiting_state =
     \<lparr>pending = [(''b'', Request () ''b'')], warnings = {''500''}, attempts = 2,
      backoff = 10, yielded = [RequestResult ''a'' (Some ()) None],
      printed = [(''The API returned a server error (500) for {rid}. Retrying.'', ''b'')],
      slept = [5], passes = 1\<rparr>"

lemma mixed_first_pass:
  "run_pass mixed_runner (initial_state mixed_runner) =
     (None, \<lparr>pending = [(''b'', Request () ''b'')], warnings = {''500''}, attempts = 1,
      backoff = 5, yielded = [RequestResult ''a'' (Some ()) None],
      printed = [(''The API returned a server error (500) for {rid}. Retrying.'', ''b'')],
      slept = [], passes = 1\<rparr>)"
  by (simp add: run_pass_def initial_state_def mixed_runner_def mixed_delegate_def initial_pending_def
      handle_result_def dict_del_def matching_default_500 RETRY_def SKIP_def FAIL_def)
     (simp add: DEFAULT_POLICIES_def RETRY_def)

lemma mixed_second_pass:
  "run_pass mixed_runner waiting_state =
     (None, \<lparr>pending = [(''b'', Request () ''b'')], warnings = {''500''}, attempts = 2,
      backoff = 10, yielded = [RequestResult ''a'' (Some ()) None],
      printed = [(''The API returned a server error (500) for {rid}. Retrying.'', ''b'')],
      slept = [5], passes = 2\<rparr>)"
  by (simp add: run_pass_def waiting_state_def mixed_runner_def mixed_delegate_def
      handle_result_def dict_del_def matching_default_500 RETRY_def SKIP_def FAIL_def)
     (simp add: DEFAULT_POLICIES_def RETRY_def)

theorem backoff_after_pass_witness:
  "fst (run_pass mixed_runner (initial_state mixed_runner)) = None
   \<and> list_ex succeeded (pass_results mixed_runner (initial_state mixed_runner))
   \<and> backoff (snd (run_pass mixed_runner (initial_state mixed_runner))) = 5
   \<and> attempts (snd (run_pass mixed_runner (initial_state mixed_runner))) = 1
   \<and> slept (snd (back_off (snd (run_pass mixed_runner (initial_state mixed_runner))))) = [5]
   \<and> backoff (snd (back_off (snd (run_pass mixed_runner (initial_state mixed_runner))))) = 10
   \<and> attempts (snd (back_off (snd (run_pass mixed_runner (initial_state mixed_runner))))) = 2
   \<and> fst (run_pass mixed_runner waiting_state) = None
   \<and> \<not> list_ex succeeded (pass_results mixed_runner waiting_state)
   \<and> backoff waiting_state = 10
   \<and> slept (snd (back_off (snd (run_pass mixed_runner waiting_state)))) = [5, 10]
   \<and> backoff (snd (back_off (snd (run_pass mixed_runner waiting_state)))) = 20
   \<and> attempts (snd (back_off (snd (run_pass mixed_runner waiting_state)))) = 3"
proof -
  have ok1: "fst (run_pass mixed_runner (initial_state mixed_runner)) = None"
    by (simp add: mixed_first_pass)
  have ok2: "fst (run_pass mixed_runner waiting_state) = None"
    by (simp add: mixed_second_pass)
  have s1: "list_ex succeeded (pass_results mixed_runner (initial_state mixed_runner))"
    by (simp add: pass_results_def succeeded_def initial_state_def mixed_runner_def
        mixed_delegate_def initial_pending_def)
  have s2: "\<not> list_ex succeeded (pass_results mixed_runner waiting_state)"
    by (simp add: pass_results_def succeeded_def waiting_state_def mixed_runner_def mixed_delegate_def)
  have p1: "pending (snd (run_pass mixed_runner (initial_state mixed_runner))) \<noteq> []"
    "backoff (snd (run_pass mixed_runner (initial_state mixed_runner))) = 5"
    by (simp_all add: mixed_first_pass)
  have p0: "slept (initial_state mixed_runner) = []"
    by (simp add: initial_state_def)
  have p2: "pending (snd (run_pass mixed_runner waiting_state)) \<noteq> []"
    "backoff (snd (run_pass mixed_runner waiting_state)) = 10"
    by (simp_all add: mixed_second_pass)
  have p3: "slept waiting_state = [5]" "backoff waiting_state = 10" "attempts waiting_state = 2"
    by (simp_all add: waiting_state_def)
  from backoff_after_pass[OF ok1] backoff_after_pass[OF ok2] ok1 ok2 s1 s2 p0 p1 p2 p3
  show ?thesis by simp
qed

section \<open>Selecting a policy\<close>

text \<open>
  The specification's rule for one policy: the status code is among the policy's codes, and,
  when the policy declares reasons, the reason is among them. An error without a reason is
  never among declared reasons.
\<close>

definition selects :: "string \<Rightarrow> string option \<Rightarrow> http_error_policy \<Rightarrow> bool" where
  "selects code rsn p =
     (code \<in> set (codes p) \<and>
      (case reasons p of
         None \<Rightarrow> True
       | Some rs \<Rightarrow> (case rsn of None \<Rightarrow> False | Some s \<Rightarrow> s \<in> rs)))"

lemma matches_selects:
  "reason e = Reason rsn \<Longrightarrow> matches p e = Inr (selects (status e) rsn p)"
  by (auto simp: matches_def matches_status_def matches_reason_def selects_def
      split: option.splits)

lemma matching_policies_filter:
  "reason e = Reason rsn \<Longrightarrow> matching_policies tbl e = Inr (filter (selects (status e) rsn) tbl)"
  by (induction tbl) (simp_all add: matches_selects)

lemma find_filter: "List.find P xs = (case filter P xs of [] \<Rightarrow> None | x # _ \<Rightarrow> Some x)"
  by (induction xs) auto

lemma matching_find:
  "reason e = Reason rsn \<Longrightarrow> matching tbl e = Inr (List.find (selects (status e) rsn) tbl, status e)"
  by (simp add: matching_def matching_policies_filter find_filter)

lemma consume_append:
  "consume r (xs @ ys) st =
     (case consume r xs st of (Some x, st') \<Rightarrow> (Some x, st') | (None, st') \<Rightarrow> consume r ys st')"
  by (induction xs arbitrary: st) (auto split: prod.splits option.splits)

lemma handle_result_no_policy:
  "result_error res = Some e \<Longrightarrow> matching (policies r) e = Inr (None, c) \<Longrightarrow>
     handle_result r res st = (Some (HttpError e), st)"
  by (simp add: handle_result_def)

text \<open>
  C3. For an error whose body yields a reason code (possibly none), \<open>matching\<close> selects the
  first policy of the table, in table order, whose codes contain the status and whose declared
  reasons, if any, contain the reason, and selects none exactly when no policy of the table
  does; a policy without declared reasons matches every error of its statuses; and when no
  policy is selected, handling the result raises the error at once, which ends the pass and
  the whole run of the loop with that error, the later results of the pass unread.
\<close>

theorem matching_first_match:
  fixes r :: "('q, 'p) runner"
  shows "(reason e = Reason rsn \<longrightarrow>
            matching tbl e = Inr (List.find (selects (status e) rsn) tbl, status e)
            \<and> (\<forall>p. fst (projr (matching tbl e)) = Some p \<longrightarrow>
                  (\<exists>i < length tbl. tbl ! i = p \<and> selects (status e) rsn p
                                    \<and> (\<forall>j < i. \<not> selects (status e) rsn (tbl ! j))))
            \<and> (fst (projr (matching tbl e)) = None \<longleftrightarrow> (\<forall>p \<in> set tbl. \<not> selects (status e) rsn p)))
       \<and> (reasons q = None \<and> status e \<in> set (codes q) \<longrightarrow> matches q e = Inr True)
       \<and> (result_error res = Some e \<and> matching (policies r) e = Inr (None, c) \<longrightarrow>
            handle_result r res st1 = (Some (HttpError e), st1)
            \<and> (loop_condition r st \<and> pass_results r st = pre @ res # rest
                \<and> consume r pre (st\<lparr>passes := Suc (passes st)\<rparr>) = (None, st1) \<longrightarrow>
                  run_loop r st = (Some (HttpError e), st1)))"
proof (intro conjI impI allI)
  assume d: "reason e = Reason rsn"
  show m: "matching tbl e = Inr (List.find (selects (status e) rsn) tbl, status e)"
    by (rule matching_find[OF d])
  show "fst (projr (matching tbl e)) = None \<longleftrightarrow> (\<forall>p \<in> set tbl. \<not> selects (status e) rsn p)"
    by (auto simp: m find_None_iff)
  fix p assume "fst (projr (matching tbl e)) = Some p"
  then have "List.find (selects (status e) rsn) tbl = Some p" by (simp add: m)
  then show "\<exists>i < length tbl. tbl ! i = p \<and> selects (status e) rsn p
                                    \<and> (\<forall>j < i. \<not> selects (status e) rsn (tbl ! j))"
    by (auto simp: find_Some_iff)
next
  assume "reasons q = None \<and> status e \<in> set (codes q)"
  then show "matches q e = Inr True"
    by (simp add: matches_def matches_status_def matches_reason_def)
next
  assume a: "result_error res = Some e \<and> matching (policies r) e = Inr (None, c)"
  then show h: "handle_result r res st1 = (Some (HttpError e), st1)"
    by (simp add: handle_result_no_policy)
  assume b: "loop_condition r st \<and> pass_results r st = pre @ res # rest
                \<and> consume r pre (st\<lparr>passes := Suc (passes st)\<rparr>) = (None, st1)"
  obtain rs exc where d: "delegate r (passes st) (map snd (pending st)) = (rs, exc)"
    by (cases "delegate r (passes st) (map snd (pending st))")
  with b have rs: "rs = pre @ res # rest" by (simp add: pass_results_def)
  have "consume r rs (st\<lparr>passes := Suc (passes st)\<rparr>) = (Some (HttpError e), st1)"
    unfolding rs using b h by (simp add: consume_append)
  with d have "run_pass r st = (Some (HttpError e), st1)" by (simp add: run_pass_def)
  with b show "run_loop r st = (Some (HttpError e), st1)"
    by (subst run_loop.simps) simp
qed


text \<open>
  Errors for the default table: a rate-limited 403, which the third policy takes, and a 403
  with another reason, which no policy takes; and a runner whose second request fails so.
\<close>

definition rate_limited :: http_error where
  "rate_limited = HttpErr ''403'' (Reason (Some ''rateLimitExceeded''))"

definition forbidden :: http_error where
  "forbidden = HttpErr ''403'' (Reason (Some ''forbidden''))"

definition forbidden_delegate :: "nat \<Rightarrow> unit request list \<Rightarrow> unit request_result list \<times> error option" where
  "forbidden_delegate n reqs =
     (map (\<lambda>rq. if request_id rq = ''a'' then RequestResult ''a'' (Some ()) None
                 else RequestResult (request_id rq) None (Some forbidden)) reqs,
      None)"

definition forbidden_runner :: "(unit, unit) runner" where
  "forbidden_runner =
     \<lparr>requests = [Request () ''a'', Request () ''b''], min_backoff = 5, max_retries = 10,
      timeout = None, policies = DEFAULT_POLICIES, delegate = forbidden_delegate,
      elapsed = (\<lambda>n. int n)\<rparr>"

definition forbidden_final :: "(unit, unit) exec_state" where
  "forbidden_final =
     \<lparr>pending = [(''b'', Request () ''b'')], warnings = {}, attempts = 1, backoff = 5,
      yielded = [RequestResult ''a'' (Some ()) None], printed = [], slept = [], passes = 1\<rparr>"

theorem matching_first_match_witness:
  "matching DEFAULT_POLICIES rate_limited = Inr (Some (DEFAULT_POLICIES ! 2), ''403'')
   \<and> matches (DEFAULT_POLICIES ! 1) (HttpErr ''404'' ReasonRaises) = Inr True
   \<and> matching DEFAULT_POLICIES forbidden = Inr (None, ''403'')
   \<and> execute forbidden_runner = (Some (HttpError forbidden), forbidden_final)"
proof -
  have 1: "reason rate_limited = Reason (Some ''rateLimitExceeded'')"
    by (simp add: rate_limited_def)
  have f1: "List.find (selects (status rate_limited) (Some ''rateLimitExceeded'')) DEFAULT_POLICIES
            = Some (DEFAULT_POLICIES ! 2)"
    by (simp add: rate_limited_def selects_def DEFAULT_POLICIES_def)
  have 2: "reasons (DEFAULT_POLICIES ! 1) = None
           \<and> status (HttpErr ''404'' ReasonRaises) \<in> set (codes (DEFAULT_POLICIES ! 1))"
    by (simp add: DEFAULT_POLICIES_def)
  have 3: "reason forbidden = Reason (Some ''forbidden'')"
    by (simp add: forbidden_def)
  have f3: "List.find (selects (status forbidden) (Some ''forbidden'')) DEFAULT_POLICIES = None"
    by (simp add: forbidden_def selects_def DEFAULT_POLICIES_def)
  have lc: "loop_condition forbidden_runner (initial_state forbidden_runner)"
    by (simp add: loop_condition_def forbidden_runner_def initial_state_def within_timeout_def)
  have pr: "pass_results forbidden_runner (initial_state forbidden_runner)
            = [RequestResult ''a'' (Some ()) None] @ RequestResult ''b'' None (Some forbidden) # []"
    by (simp add: pass_results_def forbidden_runner_def initial_state_def forbidden_delegate_def
        initial_pending_def)
  have co: "consume forbidden_runner [RequestResult ''a'' (Some ()) None]
              ((initial_state forbidden_runner)\<lparr>passes := Suc (passes (initial_state forbidden_runner))\<rparr>)
            = (None, forbidden_final)"
    by (simp add: forbidden_runner_def initial_state_def forbidden_final_def initial_pending_def
        handle_result_def dict_del_def)
  have re: "result_error (RequestResult ''b'' None (Some forbidden) :: unit request_result) = Some forbidden"
    by simp
  note a0 = matching_first_match[where e = rate_limited and rsn = "Some ''rateLimitExceeded''"
      and tbl = DEFAULT_POLICIES, THEN conjunct1, THEN mp, OF 1, THEN conjunct1]
  have a: "matching DEFAULT_POLICIES rate_limited = Inr (Some (DEFAULT_POLICIES ! 2), ''403'')"
    using a0 f1 by (simp add: rate_limited_def)
  note b = matching_first_match[where q = "DEFAULT_POLICIES ! 1" and e = "HttpErr ''404'' ReasonRaises",
      THEN conjunct2, THEN conjunct1, THEN mp, OF 2]
  note c0 = matching_first_match[where e = forbidden and rsn = "Some ''forbidden''"
      and tbl = DEFAULT_POLICIES, THEN conjunct1, THEN mp, OF 3, THEN conjunct1]
  have c: "matching DEFAULT_POLICIES forbidden = Inr (None, ''403'')"
    using c0 f3 by (simp add: forbidden_def)
  have m3: "matching (policies forbidden_runner) forbidden = Inr (None, ''403'')"
    using c by (simp add: forbidden_runner_def)
  note d0 = matching_first_match[where e = forbidden
      and res = "RequestResult ''b'' None (Some forbidden)" and r = forbidden_runner
      and c = "''403''" and ?st1.0 = forbidden_final and st = "initial_state forbidden_runner"
      and pre = "[RequestResult ''a'' (Some ()) None]" and rest = "[]",
      THEN conjunct2, THEN conjunct2, THEN mp, OF conjI[OF re m3], THEN conjunct2, THEN mp,
      OF conjI[OF lc conjI[OF pr co]]]
  have d: "execute forbidden_runner = (Some (HttpError forbidden), forbidden_final)"
    using d0 by (simp add: execute_def)
  from a b c d show ?thesis by simp
qed

text \<open>
  Every policy of the table is tested: a body that cannot be decoded makes \<open>matching\<close> raise
  as soon as some policy with declared reasons has the status, even behind a policy that
  matched already.
\<close>

lemma matching_undecodable:
  "matching [\<lparr>codes = [''403''], reasons = None, print_always = True, action = SKIP, warning = []\<rparr>,
             \<lparr>codes = [''403''], reasons = Some {''rateLimitExceeded''}, print_always = True,
              action = RETRY, warning = []\<rparr>]
     (HttpErr ''403'' ReasonRaises) = Inl (CannotHandle (HttpErr ''403'' ReasonRaises))"
  by (simp add: matching_def matches_def matches_status_def matches_reason_def)

section \<open>Skipped operations\<close>

text \<open>
  \<open>SequentialRequestRunner.execute\<close> (lines 39-50) as a delegate. \<open>srv n q\<close> is what
  \<open>request.execute()\<close> does for the request \<open>q\<close> in pass \<open>n\<close>: it returns a response, raises
  an \<open>HttpError\<close>, which the runner catches and reports in the result, or raises something
  else, which ends the generator.
\<close>

datatype 'p reply = Response 'p | HttpFailure http_error | Failure error

fun SequentialRequestRunner ::
  "(nat \<Rightarrow> 'q \<Rightarrow> 'p reply) \<Rightarrow> nat \<Rightarrow> 'q request list \<Rightarrow> 'p request_result list \<times> error option" where
  "SequentialRequestRunner srv n [] = ([], None)"
| "SequentialRequestRunner srv n (rq # rest) =
     (case srv n (request rq) of
        Response p \<Rightarrow>
          (case SequentialRequestRunner srv n rest of
             (rs, exc) \<Rightarrow> (RequestResult (request_id rq) (Some p) None # rs, exc))
      | HttpFailure e \<Rightarrow>
          (case SequentialRequestRunner srv n rest of
             (rs, exc) \<Rightarrow> (RequestResult (request_id rq) None (Some e) # rs, exc))
      | Failure x \<Rightarrow> ([], Some x))"

text \<open>A result whose error the policy table answers with \<open>SKIP\<close>.\<close>

definition skip_error :: "('q, 'p) runner \<Rightarrow> 'p request_result \<Rightarrow> bool" where
  "skip_error r res =
     (case result_error res of
        None \<Rightarrow> False
      | Some e \<Rightarrow>
          (case matching (policies r) e of
             Inr (Some p, c) \<Rightarrow> action p = SKIP
           | _ \<Rightarrow> False))"

lemma dict_del_present:
  "k \<in> fst ` set d \<Longrightarrow> dict_del k d = Inr (filter (\<lambda>kv. fst kv \<noteq> k) d)"
proof -
  assume "k \<in> fst ` set d"
  then have "map_of d k \<noteq> None" by (simp add: map_of_eq_None_iff)
  then show ?thesis by (auto simp: dict_del_def)
qed

lemma handle_result_skip:
  assumes k: "result_id res \<in> fst ` set (pending st)"
    and s: "succeeded res \<or> skip_error r res"
  shows "\<exists>st'. handle_result r res st = (None, st')
           \<and> pending st' = filter (\<lambda>kv. fst kv \<noteq> result_id res) (pending st)
           \<and> passes st' = passes st"
proof (cases "result_error res")
  case None
  then show ?thesis using dict_del_present[OF k] by (simp add: handle_result_def)
next
  case (Some e)
  with s obtain p c where m: "matching (policies r) e = Inr (Some p, c)" and a: "action p = SKIP"
    by (auto simp: succeeded_def skip_error_def split: sum.splits option.splits prod.splits)
  show ?thesis using Some m a dict_del_present[OF k]
    by (simp add: handle_result_def Let_def)
qed

lemma consume_skip:
  "distinct (map result_id rs) \<Longrightarrow> result_id ` set rs \<subseteq> fst ` set (pending st) \<Longrightarrow>
   list_all (\<lambda>res. succeeded res \<or> skip_error r res) rs \<Longrightarrow>
   \<exists>st'. consume r rs st = (None, st')
         \<and> pending st' = filter (\<lambda>kv. fst kv \<notin> result_id ` set rs) (pending st)
         \<and> passes st' = passes st"
proof (induction rs arbitrary: st)
  case Nil
  then show ?case by simp
next
  case (Cons res rest)
  from Cons.prems have k: "result_id res \<in> fst ` set (pending st)"
    and s: "succeeded res \<or> skip_error r res" by auto
  from handle_result_skip[OF k s] obtain st1 where
    h: "handle_result r res st = (None, st1)"
    and p1: "pending st1 = filter (\<lambda>kv. fst kv \<noteq> result_id res) (pending st)"
    and n1: "passes st1 = passes st" by blast
  have d: "distinct (map result_id rest)" using Cons.prems(1) by simp
  have sub: "result_id ` set rest \<subseteq> fst ` set (pending st1)"
  proof
    fix k assume "k \<in> result_id ` set rest"
    then obtain x where x: "x \<in> set rest" "k = result_id x" by blast
    from Cons.prems(1) have "result_id res \<notin> result_id ` set rest" by simp
    with x have ne: "k \<noteq> result_id res" by blast
    from x Cons.prems(2) have "k \<in> fst ` set (pending st)" by auto
    then obtain kv where "kv \<in> set (pending st)" "fst kv = k" by auto
    with ne have "kv \<in> set (pending st1)" unfolding p1 by simp
    with \<open>fst kv = k\<close> show "k \<in> fst ` set (pending st1)" by force
  qed
  have all: "list_all (\<lambda>res. succeeded res \<or> skip_error r res) rest" using Cons.prems(3) by simp
  from Cons.IH[OF d sub all] obtain st' where
    c: "consume r rest st1 = (None, st')"
    and p': "pending st' = filter (\<lambda>kv. fst kv \<notin> result_id ` set rest) (pending st1)"
    and n': "passes st' = passes st1" by blast
  have "pending st' = filter (\<lambda>kv. fst kv \<notin> result_id ` set (res # rest)) (pending st)"
    unfolding p' p1 by (auto intro: filter_cong)
  with h c n1 n' show ?case by simp
qed

text \<open>
  C4. When the loop is entered (\<open>max_retries\<close> is at least 1 and the timeout has not passed
  at the first check), and the first pass produces one result for each pending operation, each
  either a success or an error that the policy table answers with \<open>SKIP\<close>, then \<open>execute\<close>
  returns normally after that single pass: it has yielded exactly the successful outcomes, in
  the order they arrived, it has not slept and has used no retry (\<open>attempts\<close> is 1), and every
  skipped operation has left \<open>pending\<close> without a result being yielded for it.
\<close>

theorem execute_skip:
  fixes r :: "('q, 'p) runner"
  assumes lc: "loop_condition r (initial_state r)"
    and d: "delegate r 0 (map snd (initial_pending (requests r))) = (rs, None)"
    and ds: "distinct (map result_id rs)"
    and ids: "result_id ` set rs = fst ` set (initial_pending (requests r))"
    and sk: "list_all (\<lambda>res. succeeded res \<or> skip_error r res) rs"
  shows "fst (execute r) = None
         \<and> yielded (snd (execute r)) = filter succeeded rs
         \<and> pending (snd (execute r)) = []
         \<and> passes (snd (execute r)) = 1
         \<and> slept (snd (execute r)) = []
         \<and> attempts (snd (execute r)) = 1
         \<and> backoff (snd (execute r)) = min_backoff r"
proof -
  let ?st = "initial_state r"
  let ?entered = "?st\<lparr>passes := Suc (passes ?st)\<rparr>"
  have i1: "passes ?st = 0" by (simp add: initial_state_def)
  have i2: "pending ?st = initial_pending (requests r)" by (simp add: initial_state_def)
  have i3: "yielded ?st = []" by (simp add: initial_state_def)
  have i4: "slept ?st = []" by (simp add: initial_state_def)
  have i5: "attempts ?st = 1" by (simp add: initial_state_def)
  have i6: "backoff ?st = min_backoff r" by (simp add: initial_state_def)
  note i = i1 i2 i3 i4 i5 i6
  have p0: "pending ?entered = initial_pending (requests r)" using i(2) by simp
  have sub: "result_id ` set rs \<subseteq> fst ` set (pending ?entered)" unfolding p0 ids by (rule subset_refl)
  from consume_skip[OF ds sub sk] obtain st' where
    c: "consume r rs ?entered = (None, st')"
    and p: "pending st' = filter (\<lambda>kv. fst kv \<notin> result_id ` set rs) (pending ?entered)"
    and n: "passes st' = passes ?entered" by blast
  have "\<forall>kv \<in> set (pending ?entered). fst kv \<in> result_id ` set rs"
    unfolding p0 ids by (rule ballI) (rule imageI)
  then have pe: "pending st' = []" unfolding p by (simp add: filter_empty_conv)
  have rp: "run_pass r ?st = (None, st')" using d c i by (simp add: run_pass_def)
  have rl: "run_loop r ?st = (None, st')"
    by (subst run_loop.simps) (use lc rp pe in simp)
  from consume_counters[OF c] have cnt:
    "yielded st' = filter succeeded rs" "slept st' = []"
    "attempts st' = 1" "backoff st' = min_backoff r"
    using i by (auto split: if_splits)
  from rl pe n cnt i show ?thesis by (simp add: execute_def)
qed

text \<open>The sequential delegate answers every request once, in the order of submission.\<close>

lemma sequential_ids:
  "snd (SequentialRequestRunner srv n reqs) = None \<Longrightarrow>
     map result_id (fst (SequentialRequestRunner srv n reqs)) = map request_id reqs"
  by (induction reqs) (auto split: reply.splits prod.splits)


text \<open>Three requests against the default table; the second one meets a 404.\<close>

definition stale_service :: "nat \<Rightarrow> string \<Rightarrow> unit reply" where
  "stale_service n q =
     (if q = ''gone'' then HttpFailure (HttpErr ''404'' (Reason (Some ''notFound''))) else Response ())"

definition skip_runner :: "(string, unit) runner" where
  "skip_runner =
     \<lparr>requests = [Request ''f1'' ''a'', Request ''gone'' ''b'', Request ''f2'' ''c''],
      min_backoff = 5, max_retries = 10, timeout = None, policies = DEFAULT_POLICIES,
      delegate = SequentialRequestRunner stale_service, elapsed = (\<lambda>n. int n)\<rparr>"

definition skip_results :: "unit request_result list" where
  "skip_results =
     [RequestResult ''a'' (Some ()) None,
      RequestResult ''b'' None (Some (HttpErr ''404'' (Reason (Some ''notFound'')))),
      RequestResult ''c'' (Some ()) None]"

lemma skip_runner_pending:
  "initial_pending (requests skip_runner) =
     [(''a'', Request ''f1'' ''a''), (''b'', Request ''gone'' ''b''), (''c'', Request ''f2'' ''c'')]"
  by (simp add: skip_runner_def initial_pending_def)

lemma matching_default_404:
  "matching DEFAULT_POLICIES (HttpErr ''404'' (Reason (Some ''notFound'')))
     = Inr (Some (DEFAULT_POLICIES ! 1), ''404'')"
  by (simp add: matching_def DEFAULT_POLICIES_def matches_def matches_status_def matches_reason_def)

theorem execute_skip_witness:
  "loop_condition skip_runner (initial_state skip_runner)
   \<and> delegate skip_runner 0 (map snd (initial_pending (requests skip_runner))) = (skip_results, None)
   \<and> distinct (map result_id skip_results)
   \<and> result_id ` set skip_results = fst ` set (initial_pending (requests skip_runner))
   \<and> list_all (\<lambda>res. succeeded res \<or> skip_error skip_runner res) skip_results
   \<and> fst (execute skip_runner) = None
   \<and> yielded (snd (execute skip_runner))
       = [RequestResult ''a'' (Some ()) None, RequestResult ''c'' (Some ()) None]
   \<and> pending (snd (execute skip_runner)) = []
   \<and> passes (snd (execute skip_runner)) = 1
   \<and> slept (snd (execute skip_runner)) = []
   \<and> attempts (snd (execute skip_runner)) = 1"
proof -
  have lc: "loop_condition skip_runner (initial_state skip_runner)"
    by (simp add: loop_condition_def skip_runner_def initial_state_def within_timeout_def)
  have d: "delegate skip_runner 0 (map snd (initial_pending (requests skip_runner))) = (skip_results, None)"
    unfolding skip_runner_pending
    by (simp add: skip_runner_def stale_service_def skip_results_def)
  have ds: "distinct (map result_id skip_results)"
    by (simp add: skip_results_def)
  have ids: "result_id ` set skip_results = fst ` set (initial_pending (requests skip_runner))"
    unfolding skip_runner_pending by (simp add: skip_results_def)
  have sk: "list_all (\<lambda>res. succeeded res \<or> skip_error skip_runner res) skip_results"
    by (simp add: skip_results_def succeeded_def skip_error_def skip_runner_def matching_default_404)
       (simp add: DEFAULT_POLICIES_def)
  have f: "filter succeeded skip_results
           = [RequestResult ''a'' (Some ()) None, RequestResult ''c'' (Some ()) None]"
    by (simp add: skip_results_def succeeded_def)
  from execute_skip[OF lc d ds ids sk] lc d ds ids sk f show ?thesis by simp
qed

text \<open>Without an admitted attempt no pass is made, whatever the operations are.\<close>

lemma execute_no_attempt:
  "max_retries r < 1 \<Longrightarrow> execute r = (Some TooManyRetries, initial_state r)"
  by (subst execute_def, subst run_loop.simps) (simp add: loop_condition_def initial_state_def)

section \<open>drive/api.py: resources and paths\<close>

text \<open>
  The three resource classes, with the fields in the order of their constructors:
  \<open>Resource(id, mimeType, parents)\<close>, \<open>DriveFolder(name, id, mimeType, parents)\<close> and
  \<open>DriveFile(name, id, mimeType, parents, md5Checksum)\<close>; the \<open>service\<close> handle is left out.
  A plain \<open>Resource\<close> has no \<open>name\<close> attribute, so reading it raises. A leading underscore
  of a Python name is written \<open>u_\<close>.
\<close>

datatype resource =
    Resource string string "string list"
  | DriveFolder string string string "string list"
  | DriveFile string string string "string list" "string option"

fun resource_id :: "resource \<Rightarrow> string" where
  "resource_id (Resource i m ps) = i"
| "resource_id (DriveFolder n i m ps) = i"
| "resource_id (DriveFile n i m ps c) = i"

fun parents :: "resource \<Rightarrow> string list" where
  "parents (Resource i m ps) = ps"
| "parents (DriveFolder n i m ps) = ps"
| "parents (DriveFile n i m ps c) = ps"

fun resource_name :: "resource \<Rightarrow> error + string" where
  "resource_name (Resource i m ps) = Inl AttributeError"
| "resource_name (DriveFolder n i m ps) = Inr n"
| "resource_name (DriveFile n i m ps c) = Inr n"

text \<open>\<open>ResourcePath\<close>: the resource and its ancestors, the nearest first.\<close>

record resource_path =
  resource :: resource
  path :: "resource list"

text \<open>\<open>sep.join(xs)\<close>, and the list comprehension over \<open>.name\<close>.\<close>

fun join :: "string \<Rightarrow> string list \<Rightarrow> string" where
  "join sep [] = []"
| "join sep [x] = x"
| "join sep (x # y # ys) = x @ sep @ join sep (y # ys)"

fun names :: "resource list \<Rightarrow> error + string list" where
  "names [] = Inr []"
| "names (r # rs) =
     (case resource_name r of
        Inl x \<Rightarrow> Inl x
      | Inr n \<Rightarrow> (case names rs of Inl x \<Rightarrow> Inl x | Inr ns \<Rightarrow> Inr (n # ns)))"

text \<open>\<open>ResourcePath.__str__\<close> (lines 250-254) and \<open>startswith\<close> (lines 256-257).\<close>

definition str :: "resource_path \<Rightarrow> error + string" where
  "str p =
     (case names (resource p # path p) of
        Inl x \<Rightarrow> Inl x
      | Inr ns \<Rightarrow> Inr (''/'' @ join ''/'' (rev ns)))"

definition startswith :: "resource_path \<Rightarrow> string \<Rightarrow> error + bool" where
  "startswith p prefix =
     (case str p of Inl x \<Rightarrow> Inl x | Inr s \<Rightarrow> Inr (take (length prefix) s = prefix))"

text \<open>\<open>unique\<close> (lines 274-280); \<open>resources[0]\<close> raises \<open>IndexError\<close> on an empty list.\<close>

definition unique :: "'a list \<Rightarrow> string \<Rightarrow> bool \<Rightarrow> bool \<Rightarrow> error + 'a" where
  "unique resources alias allow_none allow_multiple =
     (if length resources = 0 \<and> \<not> allow_none then Inl (NotFound alias)
      else if length resources > 1 \<and> \<not> allow_multiple then Inl (Ambiguous alias)
      else (case resources of [] \<Rightarrow> Inl IndexError | x # _ \<Rightarrow> Inr x))"

text \<open>
  \<open>_resource_path\<close> (lines 307-319). The recursion follows parent links and nothing bounds it
  but the interpreter, which ends a recursion deeper than its limit with \<open>RecursionError\<close>:
  the first argument is the number of frames left. \<open>table[...]\<close> raises \<open>KeyError\<close> on a
  missing key.
\<close>

fun u_resource_path :: "nat \<Rightarrow> resource \<Rightarrow> (string \<times> resource) list \<Rightarrow> error + resource list" where
  "u_resource_path 0 r table = Inl RecursionError"
| "u_resource_path (Suc depth) r table =
     (case parents r of
        [] \<Rightarrow> Inr []
      | [p] \<Rightarrow>
          (case map_of table p of
             None \<Rightarrow> Inl (KeyError p)
           | Some parent \<Rightarrow>
               (case u_resource_path depth parent table of
                  Inl x \<Rightarrow> Inl x
                | Inr rest \<Rightarrow> Inr (parent # rest)))
      | _ \<Rightarrow> Inl MultipleParents)"

text \<open>
  \<open>resolve_paths\<close> (lines 283-304). \<open>by_id rs d\<close> is \<open>d\<close> updated with \<open>{r.id: r for r in rs}\<close>
  and \<open>unresolved\<close> is the set \<open>parents - resolved.keys()\<close>, listed in the order of first
  occurrence. \<open>get_resources n ids\<close> stands for the remote fetch \<open>get_resources(service, ids)\<close>
  of the \<open>n\<close>-th round: the resources it produces, or the exception it raises. The
  \<open>while True\<close> loop is not bounded by the code; it runs on fuel, and \<open>None\<close> says that the
  fuel did not suffice.
\<close>

definition by_id :: "resource list \<Rightarrow> (string \<times> resource) list \<Rightarrow> (string \<times> resource) list" where
  "by_id rs d = foldl (\<lambda>d r. dict_set d (resource_id r) r) d rs"

definition unresolved :: "(string \<times> resource) list \<Rightarrow> string list" where
  "unresolved resolved =
     remdups (filter (\<lambda>p. map_of resolved p = None) (concat (map (\<lambda>kv. parents (snd kv)) resolved)))"

fun resolve_loop ::
  "nat \<Rightarrow> (nat \<Rightarrow> string list \<Rightarrow> error + resource list) \<Rightarrow> nat \<Rightarrow> (string \<times> resource) list
     \<Rightarrow> (error + (string \<times> resource) list) option" where
  "resolve_loop 0 get_resources n resolved = None"
| "resolve_loop (Suc fuel) get_resources n resolved =
     (if unresolved resolved = [] then Some (Inr resolved)
      else (case get_resources n (unresolved resolved) of
              Inl x \<Rightarrow> Some (Inl x)
            | Inr rs \<Rightarrow> resolve_loop fuel get_resources (Suc n) (by_id rs resolved)))"

fun leaf_paths ::
  "nat \<Rightarrow> resource list \<Rightarrow> (string \<times> resource) list \<Rightarrow> error + (resource \<times> resource_path) list" where
  "leaf_paths depth [] table = Inr []"
| "leaf_paths depth (leaf # leaves) table =
     (case u_resource_path depth leaf table of
        Inl x \<Rightarrow> Inl x
      | Inr p \<Rightarrow>
          (case leaf_paths depth leaves table of
             Inl x \<Rightarrow> Inl x
           | Inr rest \<Rightarrow> Inr ((leaf, \<lparr>resource = leaf, path = p\<rparr>) # rest)))"

definition resolve_paths ::
  "nat \<Rightarrow> nat \<Rightarrow> (nat \<Rightarrow> string list \<Rightarrow> error + resource list) \<Rightarrow> resource list
     \<Rightarrow> (error + (resource \<times> resource_path) list) option" where
  "resolve_paths fuel depth get_resources leaves =
     (case resolve_loop fuel get_resources 0 (by_id leaves []) of
        None \<Rightarrow> None
      | Some (Inl x) \<Rightarrow> Some (Inl x)
      | Some (Inr resolved) \<Rightarrow> Some (leaf_paths depth leaves resolved))"

text \<open>
  The hierarchy \<open>root \<rightarrow> A \<rightarrow> B \<rightarrow> leaf\<close>, and a remote service that knows a list of resources
  and answers a request for an unknown id with a 404.
\<close>

definition root :: resource where "root = DriveFolder ''root'' ''id0'' ''application/vnd.google-apps.folder'' []"
definition folderA :: resource where "folderA = DriveFolder ''A'' ''id1'' ''application/vnd.google-apps.folder'' [''id0'']"
definition folderB :: resource where "folderB = DriveFolder ''B'' ''id2'' ''application/vnd.google-apps.folder'' [''id1'']"
definition leaf :: resource where "leaf = DriveFile ''leaf'' ''id3'' ''image/jpeg'' [''id2''] (Some ''d41d'')"

definition drive :: "resource list" where "drive = [root, folderA, folderB, leaf]"

fun fetch_all :: "resource list \<Rightarrow> string list \<Rightarrow> error + resource list" where
  "fetch_all known [] = Inr []"
| "fetch_all known (i # ids) =
     (case List.find (\<lambda>r. resource_id r = i) known of
        None \<Rightarrow> Inl (HttpError (HttpErr ''404'' (Reason (Some ''notFound''))))
      | Some r \<Rightarrow> (case fetch_all known ids of Inl x \<Rightarrow> Inl x | Inr rs \<Rightarrow> Inr (r # rs)))"

definition remote_get :: "resource list \<Rightarrow> nat \<Rightarrow> string list \<Rightarrow> error + resource list" where
  "remote_get known n ids = fetch_all known ids"


section \<open>Path resolution\<close>

lemma u_resource_path_multiple:
  "1 < length (parents r) \<Longrightarrow> u_resource_path (Suc depth) r table = Inl MultipleParents"
  by (cases "parents r"; cases "tl (parents r)") auto

lemma u_resource_path_raises:
  "1 < length (parents r) \<Longrightarrow> isl (u_resource_path depth r table)"
proof (cases depth)
  case 0
  then show ?thesis by simp
next
  case (Suc n)
  assume "1 < length (parents r)"
  then show ?thesis unfolding Suc by (simp add: u_resource_path_multiple del: u_resource_path.simps)
qed

lemma leaf_paths_raises:
  "r \<in> set leaves \<Longrightarrow> 1 < length (parents r) \<Longrightarrow> isl (leaf_paths depth leaves table)"
proof (induction leaves)
  case Nil
  then show ?case by simp
next
  case (Cons l ls)
  show ?case
  proof (cases "r = l")
    case True
    with Cons.prems(2) u_resource_path_raises[of l depth table] show ?thesis
      by (auto split: sum.splits)
  next
    case False
    with Cons have "isl (leaf_paths depth ls table)" by simp
    then show ?thesis by (auto split: sum.splits)
  qed
qed

text \<open>
  C5, as the code has it. For a hierarchy \<open>r0 \<rightarrow> r1 \<rightarrow> r2 \<rightarrow> r3\<close> of three folders and a file
  with distinct ids, the root \<open>r0\<close> without a parent, and a remote service that returns each
  requested ancestor, \<open>resolve_paths\<close> returns for the leaf the ancestors \<open>[r2, r1, r0]\<close>, and
  the path renders as \<open>/n0/n1/n2/n3\<close>: the name of every ancestor, the root's included, then
  the leaf's. And for a resource with more than one parent \<open>_resource_path\<close> raises "Resources
  with multiple parents are not supported", so \<open>resolve_paths\<close> never returns paths for a list
  of leaves that holds such a resource, and raises that error when the resource is the first
  leaf and the ancestors of the leaves could be fetched.
\<close>

theorem resolve_paths_chain:
  assumes ids: "distinct [i0, i1, i2, i3]"
    and r0: "r0 = DriveFolder n0 i0 m0 []"
    and r1: "r1 = DriveFolder n1 i1 m1 [i0]"
    and r2: "r2 = DriveFolder n2 i2 m2 [i1]"
    and r3: "r3 = DriveFile n3 i3 m3 [i2] c"
    and g: "g 0 [i2] = Inr [r2]" "g 1 [i1] = Inr [r1]" "g 2 [i0] = Inr [r0]"
  shows "resolve_paths (4 + fuel) (4 + depth) g [r3]
           = Some (Inr [(r3, \<lparr>resource = r3, path = [r2, r1, r0]\<rparr>)])
         \<and> str \<lparr>resource = r3, path = [r2, r1, r0]\<rparr>
           = Inr (''/'' @ n0 @ ''/'' @ n1 @ ''/'' @ n2 @ ''/'' @ n3)
         \<and> (\<forall>r leaves table d ps h fu de. r \<in> set leaves \<and> 1 < length (parents r) \<longrightarrow>
               u_resource_path (Suc d) r table = Inl MultipleParents
               \<and> resolve_paths fu de h leaves \<noteq> Some (Inr ps)
               \<and> (r = hd leaves \<and> resolve_loop fu h 0 (by_id leaves []) = Some (Inr table) \<longrightarrow>
                    resolve_paths fu (Suc d) h leaves = Some (Inl MultipleParents)))"
proof (intro conjI allI impI)
  have f: "4 + fuel = Suc (Suc (Suc (Suc fuel)))" "4 + depth = Suc (Suc (Suc (Suc depth)))"
    by simp_all
  have ne: "i0 \<noteq> i1" "i0 \<noteq> i2" "i0 \<noteq> i3" "i1 \<noteq> i2" "i1 \<noteq> i3" "i2 \<noteq> i3"
    "i1 \<noteq> i0" "i2 \<noteq> i0" "i3 \<noteq> i0" "i2 \<noteq> i1" "i3 \<noteq> i1" "i3 \<noteq> i2"
    using ids by auto
  have g': "g (Suc 0) [i1] = Inr [r1]" "g (Suc (Suc 0)) [i0] = Inr [r0]"
    using g by (simp_all add: numeral_2_eq_2)
  have u0: "unresolved [(i3, r3)] = [i2]"
    using ne by (simp add: unresolved_def r3)
  have u1: "unresolved [(i3, r3), (i2, r2)] = [i1]"
    using ne by (simp add: unresolved_def r3 r2)
  have u2: "unresolved [(i3, r3), (i2, r2), (i1, r1)] = [i0]"
    using ne by (simp add: unresolved_def r3 r2 r1)
  have u3: "unresolved [(i3, r3), (i2, r2), (i1, r1), (i0, r0)] = []"
    using ne by (simp add: unresolved_def r3 r2 r1 r0)
  have b0: "by_id [r3] [] = [(i3, r3)]" by (simp add: by_id_def r3)
  have b1: "by_id [r2] [(i3, r3)] = [(i3, r3), (i2, r2)]"
    using ne by (simp add: by_id_def r2)
  have b2: "by_id [r1] [(i3, r3), (i2, r2)] = [(i3, r3), (i2, r2), (i1, r1)]"
    using ne by (simp add: by_id_def r1)
  have b3: "by_id [r0] [(i3, r3), (i2, r2), (i1, r1)] = [(i3, r3), (i2, r2), (i1, r1), (i0, r0)]"
    using ne by (simp add: by_id_def r0)
  have l: "resolve_loop (4 + fuel) g 0 (by_id [r3] [])
           = Some (Inr [(i3, r3), (i2, r2), (i1, r1), (i0, r0)])"
    unfolding f b0 by (simp add: u0 u1 u2 u3 g g' b1 b2 b3)
  have p: "u_resource_path (4 + depth) r3 [(i3, r3), (i2, r2), (i1, r1), (i0, r0)] = Inr [r2, r1, r0]"
    unfolding f using ne by (simp add: r3) (simp add: r2 r1 r0)
  show "resolve_paths (4 + fuel) (4 + depth) g [r3]
           = Some (Inr [(r3, \<lparr>resource = r3, path = [r2, r1, r0]\<rparr>)])"
    by (simp add: resolve_paths_def l p)
  show "str \<lparr>resource = r3, path = [r2, r1, r0]\<rparr>
           = Inr (''/'' @ n0 @ ''/'' @ n1 @ ''/'' @ n2 @ ''/'' @ n3)"
    by (simp add: str_def r0 r1 r2 r3)
next
  fix r leaves table d ps h fu de
  assume a: "r \<in> set leaves \<and> 1 < length (parents r)"
  then have m: "1 < length (parents r)" by simp
  then show "u_resource_path (Suc d) r table = Inl MultipleParents"
    by (rule u_resource_path_multiple)
  show "resolve_paths fu de h leaves \<noteq> Some (Inr ps)"
  proof
    assume "resolve_paths fu de h leaves = Some (Inr ps)"
    then obtain resolved where "leaf_paths de leaves resolved = Inr ps"
      by (auto simp: resolve_paths_def split: option.splits sum.splits)
    with leaf_paths_raises[of r leaves de resolved] a show False by auto
  qed
  assume b: "r = hd leaves \<and> resolve_loop fu h 0 (by_id leaves []) = Some (Inr table)"
  with a obtain rest where l: "leaves = r # rest" by (cases leaves) auto
  have "leaf_paths (Suc d) (r # rest) table = Inl MultipleParents"
    using u_resource_path_multiple[OF m, of d table] by (simp del: u_resource_path.simps)
  with b show "resolve_paths fu (Suc d) h leaves = Some (Inl MultipleParents)"
    unfolding l by (simp add: resolve_paths_def)
qed


text \<open>A file with two parents.\<close>

definition two_parents :: resource where
  "two_parents = DriveFile ''x.jpg'' ''id4'' ''image/jpeg'' [''id1'', ''id2''] None"

theorem resolve_paths_chain_witness:
  "distinct [''id0'', ''id1'', ''id2'', ''id3'']
   \<and> remote_get drive 0 [''id2''] = Inr [folderB]
   \<and> remote_get drive 1 [''id1''] = Inr [folderA]
   \<and> remote_get drive 2 [''id0''] = Inr [root]
   \<and> resolve_paths 4 4 (remote_get drive) [leaf]
       = Some (Inr [(leaf, \<lparr>resource = leaf, path = [folderB, folderA, root]\<rparr>)])
   \<and> str \<lparr>resource = leaf, path = [folderB, folderA, root]\<rparr> = Inr ''/root/A/B/leaf''
   \<and> two_parents \<in> set [leaf, two_parents] \<and> 1 < length (parents two_parents)
   \<and> u_resource_path 1 two_parents [] = Inl MultipleParents
   \<and> resolve_paths 4 4 (remote_get drive) [two_parents] = Some (Inl MultipleParents)
   \<and> resolve_paths 4 4 (remote_get drive) [leaf, two_parents]
       \<noteq> Some (Inr [(leaf, \<lparr>resource = leaf, path = [folderB, folderA, root]\<rparr>),
                      (two_parents, \<lparr>resource = two_parents, path = [folderA, root]\<rparr>)])"
proof -
  have ids: "distinct [''id0'', ''id1'', ''id2'', ''id3'']" by simp
  have g: "remote_get drive 0 [''id2''] = Inr [folderB]"
    "remote_get drive 1 [''id1''] = Inr [folderA]"
    "remote_get drive 2 [''id0''] = Inr [root]"
    by (simp_all add: remote_get_def drive_def root_def folderA_def folderB_def leaf_def)
  have m: "two_parents \<in> set [leaf, two_parents] \<and> 1 < length (parents two_parents)"
    by (simp add: two_parents_def)
  note t = resolve_paths_chain[OF ids root_def folderA_def folderB_def leaf_def g,
      where fuel = 0 and depth = 0]
  from t have a: "resolve_paths 4 4 (remote_get drive) [leaf]
       = Some (Inr [(leaf, \<lparr>resource = leaf, path = [folderB, folderA, root]\<rparr>)])"
    and b: "str \<lparr>resource = leaf, path = [folderB, folderA, root]\<rparr> = Inr ''/root/A/B/leaf''"
    by simp_all
  from t m have c: "u_resource_path 1 two_parents [] = Inl MultipleParents"
    and d: "resolve_paths 4 4 (remote_get drive) [leaf, two_parents]
       \<noteq> Some (Inr [(leaf, \<lparr>resource = leaf, path = [folderB, folderA, root]\<rparr>),
                      (two_parents, \<lparr>resource = two_parents, path = [folderA, root]\<rparr>)])"
    by (metis One_nat_def, blast)
  have e: "resolve_paths 4 4 (remote_get drive) [two_parents] = Some (Inl MultipleParents)"
    by code_simp
  from ids g a b m c d e show ?thesis by simp
qed

text \<open>
  C5 as stated does not hold: for the hierarchy \<open>root \<rightarrow> A \<rightarrow> B \<rightarrow> leaf\<close> the rendering is
  \<open>/root/A/B/leaf\<close>, not \<open>/A/B/leaf\<close>. The walk ends at the resource without parents, after
  adding it to the path.
\<close>

theorem rendering_counterexample:
  "resolve_paths 4 4 (remote_get drive) [leaf]
     = Some (Inr [(leaf, \<lparr>resource = leaf, path = [folderB, folderA, root]\<rparr>)])
   \<and> str \<lparr>resource = leaf, path = [folderB, folderA, root]\<rparr> = Inr ''/root/A/B/leaf''
   \<and> str \<lparr>resource = leaf, path = [folderB, folderA, root]\<rparr> \<noteq> Inr ''/A/B/leaf''"
  by code_simp

section \<open>\<open>unique\<close> on an empty list\<close>

text \<open>
  C9. With \<open>allow_none\<close> set, \<open>unique\<close> on an empty list passes both guards and fails in the
  last branch with the out-of-bounds index \<open>resources[0]\<close>, whatever \<open>allow_multiple\<close> is: it
  returns no value.
\<close>

theorem unique_empty_allow_none:
  "unique [] alias True allow_multiple = Inl IndexError"
  by (simp add: unique_def)

section \<open>commands/dedup.py\<close>

text \<open>
  The requests the commands queue: \<open>files().delete(fileId=id)\<close>, and the deferred upload of a
  local file into a folder (folder id and local path).
\<close>

datatype api_request = DeleteFile string | CreateFile string string

text \<open>
  \<open>rank\<close> (lines 67-77). \<open>first_prefix\<close> is the inner \<open>for ... else\<close> over
  \<open>enumerate(prefix_preferences)\<close>; the generator is consumed by \<open>list\<close>, so the exception of
  one path discards the ranks before it.
\<close>

fun first_prefix :: "string list \<Rightarrow> resource_path \<Rightarrow> nat \<Rightarrow> error + nat option" where
  "first_prefix [] p i = Inr None"
| "first_prefix (prefix # rest) p i =
     (case startswith p prefix of
        Inl x \<Rightarrow> Inl x
      | Inr True \<Rightarrow> Inr (Some i)
      | Inr False \<Rightarrow> first_prefix rest p (Suc i))"

fun rank :: "string list \<Rightarrow> resource_path list \<Rightarrow> error + nat list" where
  "rank prefix_preferences [] = Inr []"
| "rank prefix_preferences (p # ps) =
     (case first_prefix prefix_preferences p 0 of
        Inl x \<Rightarrow> Inl x
      | Inr None \<Rightarrow> (case str p of Inl x \<Rightarrow> Inl x | Inr s \<Rightarrow> Inl (NotCovered s))
      | Inr (Some i) \<Rightarrow>
          (case rank prefix_preferences ps of
             Inl x \<Rightarrow> Inl x
           | Inr ranks \<Rightarrow> Inr (i # ranks)))"

text \<open>
  \<open>dedup_apply\<close> (lines 51-64), on the prefixes as lines 47-49 leave them, stripped and
  ending in a slash. \<open>paths\<close> is a dictionary keyed by resources, which compare by
  id: \<open>lookup_paths\<close> is \<open>[paths[entry] for entry in entries]\<close>; \<open>to_delete\<close> is the list the
  inner loop runs over, \<open>sorted(zip(entries, ranks), key=rank)[1:]\<close>, with Python's stable
  sort; \<open>deletion_request\<close> is the request the body of that loop adds to the runner;
  \<open>new_runner\<close> stands for \<open>ErrorHandlingRunner(service, delegate=GAPIBatchRunner)\<close> over the
  queued requests.
\<close>

fun lookup_paths :: "(string \<times> resource_path) list \<Rightarrow> resource list \<Rightarrow> error + resource_path list" where
  "lookup_paths paths [] = Inr []"
| "lookup_paths paths (entry # entries) =
     (case map_of paths (resource_id entry) of
        None \<Rightarrow> Inl (KeyError (resource_id entry))
      | Some p \<Rightarrow>
          (case lookup_paths paths entries of
             Inl x \<Rightarrow> Inl x
           | Inr ps \<Rightarrow> Inr (p # ps)))"

definition to_delete ::
  "string list \<Rightarrow> (string \<times> resource_path) list \<Rightarrow> resource list \<Rightarrow> error + resource list" where
  "to_delete prefixes paths entries =
     (case lookup_paths paths entries of
        Inl x \<Rightarrow> Inl x
      | Inr ps \<Rightarrow>
          (case rank prefixes ps of
             Inl x \<Rightarrow> Inl x
           | Inr ranks \<Rightarrow> Inr (map fst (tl (sort_key snd (zip entries ranks))))))"

definition deletion_request ::
  "(string \<times> resource_path) list \<Rightarrow> resource \<Rightarrow> error + api_request request" where
  "deletion_request paths duplicate =
     (case map_of paths (resource_id duplicate) of
        None \<Rightarrow> Inl (KeyError (resource_id duplicate))
      | Some p \<Rightarrow>
          (case str p of
             Inl x \<Rightarrow> Inl x
           | Inr s \<Rightarrow>
               Inr (Request (DeleteFile (resource_id duplicate))
                            (s @ '' ('' @ resource_id duplicate @ '')''))))"

fun queue_group ::
  "(string \<times> resource_path) list \<Rightarrow> resource list \<Rightarrow> api_request request list
     \<Rightarrow> error + api_request request list" where
  "queue_group paths [] queued = Inr queued"
| "queue_group paths (duplicate # rest) queued =
     (case deletion_request paths duplicate of
        Inl x \<Rightarrow> Inl x
      | Inr rq \<Rightarrow> queue_group paths rest (queued @ [rq]))"

fun queue_deletions ::
  "string list \<Rightarrow> (string \<times> resource_path) list \<Rightarrow> (string \<times> resource list) list
     \<Rightarrow> api_request request list \<Rightarrow> error + api_request request list" where
  "queue_deletions prefixes paths [] queued = Inr queued"
| "queue_deletions prefixes paths ((md5, entries) # groups) queued =
     (case to_delete prefixes paths entries of
        Inl x \<Rightarrow> Inl x
      | Inr dups \<Rightarrow>
          (case queue_group paths dups queued of
             Inl x \<Rightarrow> Inl x
           | Inr queued' \<Rightarrow> queue_deletions prefixes paths groups queued'))"

definition dedup_apply ::
  "(api_request request list \<Rightarrow> (api_request, 'p) runner) \<Rightarrow> string list
     \<Rightarrow> (string \<times> resource_path) list \<Rightarrow> (string \<times> resource list) list \<Rightarrow> bool
     \<Rightarrow> error option \<times> (api_request, 'p) exec_state option" where
  "dedup_apply new_runner prefixes paths duplicates dry_run =
     (case queue_deletions prefixes paths duplicates [] of
        Inl x \<Rightarrow> (Some x, None)
      | Inr queued \<Rightarrow>
          (if \<not> dry_run
           then (case execute (new_runner queued) of (x, st) \<Rightarrow> (x, Some st))
           else (None, None)))"

text \<open>
  Two groups of duplicates: three copies of one picture, of which two are under
  \<open>/Pictures/New\<close> and one under \<open>/Pictures/Old\<close>, and two copies of another.
\<close>

definition pictures :: resource where "pictures = DriveFolder ''Pictures'' ''p'' ''application/vnd.google-apps.folder'' []"
definition new_folder :: resource where "new_folder = DriveFolder ''New'' ''n'' ''application/vnd.google-apps.folder'' [''p'']"
definition old_folder :: resource where "old_folder = DriveFolder ''Old'' ''o'' ''application/vnd.google-apps.folder'' [''p'']"
definition new_copy :: resource where "new_copy = DriveFile ''x.jpg'' ''f1'' ''image/jpeg'' [''n''] (Some ''abc'')"
definition old_copy :: resource where "old_copy = DriveFile ''x.jpg'' ''f2'' ''image/jpeg'' [''o''] (Some ''abc'')"
definition second_copy :: resource where "second_copy = DriveFile ''x2.jpg'' ''f3'' ''image/jpeg'' [''n''] (Some ''abc'')"
definition new_other :: resource where "new_other = DriveFile ''y.jpg'' ''g1'' ''image/jpeg'' [''n''] (Some ''def'')"
definition old_other :: resource where "old_other = DriveFile ''y.jpg'' ''g2'' ''image/jpeg'' [''o''] (Some ''def'')"

definition old_path :: resource_path where
  "old_path = \<lparr>resource = old_copy, path = [old_folder, pictures]\<rparr>"

definition new_path :: resource_path where
  "new_path = \<lparr>resource = new_copy, path = [new_folder, pictures]\<rparr>"

definition second_path :: resource_path where
  "second_path = \<lparr>resource = second_copy, path = [new_folder, pictures]\<rparr>"

definition album_paths :: "(string \<times> resource_path) list" where
  "album_paths = [(''f2'', old_path), (''f1'', new_path), (''f3'', second_path),
                  (''g1'', \<lparr>resource = new_other, path = [new_folder, pictures]\<rparr>),
                  (''g2'', \<lparr>resource = old_other, path = [old_folder, pictures]\<rparr>)]"

definition album :: "(string \<times> resource list) list" where
  "album = [(''abc'', [old_copy, new_copy, second_copy]), (''def'', [new_other, old_other])]"

text \<open>A runner whose delegate lets every request succeed.\<close>

definition batch_runner :: "api_request request list \<Rightarrow> (api_request, unit) runner" where
  "batch_runner queued =
     \<lparr>requests = queued, min_backoff = 5, max_retries = 10, timeout = None,
      policies = DEFAULT_POLICIES,
      delegate = (\<lambda>n reqs. (map (\<lambda>rq. RequestResult (request_id rq) (Some ()) None) reqs, None)),
      elapsed = (\<lambda>n. int n)\<rparr>"


section \<open>Ranking duplicates\<close>

text \<open>
  In the words of the specification, on rendered paths: a path starts with a prefix; it is
  covered when some prefix of the list matches; its rank is the index of the first prefix that
  matches.
\<close>

definition starts_with :: "string \<Rightarrow> string \<Rightarrow> bool" where
  "starts_with s prefix = (take (length prefix) s = prefix)"

definition covered :: "string list \<Rightarrow> string \<Rightarrow> bool" where
  "covered prefixes s = list_ex (starts_with s) prefixes"

definition first_index :: "string list \<Rightarrow> string \<Rightarrow> nat" where
  "first_index prefixes s = length (takeWhile (\<lambda>p. \<not> starts_with s p) prefixes)"

text \<open>
  In the words of the specification, on the members of a group: a member renders when the
  dictionary of paths has a path for it and that path has a string; its rank is the rank of that
  string; the member kept is the first, in the group's order, of those of the least rank; the
  members deleted are the others, in the order of a stable sort by rank; and the request that
  deletes a member carries its id, and its path and id as the request id.
\<close>

definition renders :: "(string \<times> resource_path) list \<Rightarrow> resource \<Rightarrow> bool" where
  "renders paths e =
     (case map_of paths (resource_id e) of
        None \<Rightarrow> False
      | Some p \<Rightarrow> (case str p of Inl x \<Rightarrow> False | Inr s \<Rightarrow> True))"

definition rendered :: "(string \<times> resource_path) list \<Rightarrow> resource \<Rightarrow> string" where
  "rendered paths e =
     (case map_of paths (resource_id e) of
        None \<Rightarrow> []
      | Some p \<Rightarrow> (case str p of Inl x \<Rightarrow> [] | Inr s \<Rightarrow> s))"

definition member_covered :: "string list \<Rightarrow> (string \<times> resource_path) list \<Rightarrow> resource \<Rightarrow> bool" where
  "member_covered prefixes paths e = covered prefixes (rendered paths e)"

definition member_rank :: "string list \<Rightarrow> (string \<times> resource_path) list \<Rightarrow> resource \<Rightarrow> nat" where
  "member_rank prefixes paths e = first_index prefixes (rendered paths e)"

definition kept :: "string list \<Rightarrow> (string \<times> resource_path) list \<Rightarrow> resource list \<Rightarrow> resource" where
  "kept prefixes paths entries =
     hd (filter (\<lambda>e. list_all (\<lambda>e'. member_rank prefixes paths e \<le> member_rank prefixes paths e') entries)
                entries)"

definition deleted :: "string list \<Rightarrow> (string \<times> resource_path) list \<Rightarrow> resource list \<Rightarrow> resource list" where
  "deleted prefixes paths entries = tl (sort_key (member_rank prefixes paths) entries)"

definition deletion_of :: "(string \<times> resource_path) list \<Rightarrow> resource \<Rightarrow> api_request request" where
  "deletion_of paths d =
     Request (DeleteFile (resource_id d)) (rendered paths d @ '' ('' @ resource_id d @ '')'')"

definition members :: "(string \<times> resource list) list \<Rightarrow> resource list" where
  "members duplicates = concat (map snd duplicates)"

definition deletions ::
  "string list \<Rightarrow> (string \<times> resource_path) list \<Rightarrow> (string \<times> resource list) list
     \<Rightarrow> api_request request list" where
  "deletions prefixes paths duplicates =
     map (deletion_of paths) (concat (map (\<lambda>g. deleted prefixes paths (snd g)) duplicates))"

lemma startswith_rendered:
  "str p = Inr s \<Longrightarrow> startswith p prefix = Inr (starts_with s prefix)"
  by (simp add: startswith_def starts_with_def)

lemma first_prefix_rendered:
  "str p = Inr s \<Longrightarrow>
     first_prefix prefixes p i
       = Inr (if covered prefixes s then Some (i + first_index prefixes s) else None)"
  by (induction prefixes arbitrary: i)
     (simp_all add: startswith_rendered covered_def first_index_def)

lemma rank_rendered:
  "map str ps = map Inr ss \<Longrightarrow>
     rank prefixes ps
       = (case List.find (\<lambda>s. \<not> covered prefixes s) ss of
            Some s \<Rightarrow> Inl (NotCovered s)
          | None \<Rightarrow> Inr (map (first_index prefixes) ss))"
proof (induction ps arbitrary: ss)
  case Nil
  then show ?case by simp
next
  case (Cons p ps)
  then obtain s ss' where ss: "ss = s # ss'" and s: "str p = Inr s" and r: "map str ps = map Inr ss'"
    by (cases ss) auto
  show ?case unfolding ss
    by (simp add: first_prefix_rendered[OF s] s Cons.IH[OF r] split: option.splits)
qed

lemma first_index_first:
  assumes "covered prefixes s"
  shows "first_index prefixes s < length prefixes
         \<and> starts_with s (prefixes ! first_index prefixes s)
         \<and> (\<forall>j < first_index prefixes s. \<not> starts_with s (prefixes ! j))"
proof -
  let ?P = "\<lambda>p. \<not> starts_with s p"
  from assms obtain p where p: "p \<in> set prefixes" "\<not> ?P p"
    by (auto simp: covered_def list_ex_iff)
  have "takeWhile ?P prefixes \<noteq> prefixes"
    using p by (auto simp: takeWhile_eq_all_conv)
  then have "length (takeWhile ?P prefixes) \<noteq> length prefixes"
    using takeWhile_eq_take[of ?P prefixes] by (metis take_all_iff order_refl)
  with length_takeWhile_le[of ?P prefixes]
  have lt: "length (takeWhile ?P prefixes) < length prefixes" by linarith
  from nth_length_takeWhile[OF lt] have a: "starts_with s (prefixes ! length (takeWhile ?P prefixes))"
    by simp
  have b: "?P (prefixes ! j)" if "j < length (takeWhile ?P prefixes)" for j
  proof -
    from that have "takeWhile ?P prefixes ! j \<in> set (takeWhile ?P prefixes)" by (rule nth_mem)
    then have "?P (takeWhile ?P prefixes ! j)" by (rule set_takeWhileD[THEN conjunct2])
    with takeWhile_nth[OF that] show ?thesis by simp
  qed
  from lt a b show ?thesis by (simp add: first_index_def)
qed

text \<open>The head of a stable sort is the first element among those with the least key.\<close>

lemma hd_sort_key_first_min:
  fixes f :: "'a \<Rightarrow> nat"
  assumes "xs \<noteq> []"
  shows "hd (sort_key f xs) = hd (filter (\<lambda>y. f y = Min (f ` set xs)) xs)"
proof -
  let ?ys = "sort_key f xs"
  let ?m = "Min (f ` set xs)"
  have st: "set ?ys = set xs" by simp
  with assms have "?ys \<noteq> []" by (metis set_empty)
  then obtain y ys where ys: "?ys = y # ys" by (cases ?ys) auto
  have srt: "sorted (map f (y # ys))" unfolding ys[symmetric] by (rule sorted_sort_key)
  have yin: "y \<in> set xs" using st unfolding ys by auto
  have le: "f y \<le> f z" if "z \<in> set xs" for z
  proof -
    from that st have "z \<in> set (y # ys)" unfolding ys by simp
    with srt show ?thesis by auto
  qed
  have fin: "finite (f ` set xs)" by simp
  have "f y \<in> f ` set xs" using yin by simp
  then have 1: "?m \<le> f y" using fin by (rule_tac Min_le)
  have "?m \<in> f ` set xs" using fin yin by (intro Min_in) auto
  then obtain z where "z \<in> set xs" "?m = f z" by auto
  with le have 2: "f y \<le> ?m" by simp
  from 1 2 have m: "f y = ?m" by simp
  have "filter (\<lambda>y. f y = ?m) ?ys = filter (\<lambda>y. f y = ?m) xs"
    by (rule sort_key_stable)
  moreover have "hd (filter (\<lambda>y. f y = ?m) ?ys) = y" unfolding ys using m by simp
  ultimately show ?thesis using ys by simp
qed


lemma queue_deletions_raises:
  "(md5, entries) \<in> set groups \<Longrightarrow> isl (to_delete prefixes paths entries) \<Longrightarrow>
     isl (queue_deletions prefixes paths groups queued)"
proof (induction groups arbitrary: queued)
  case Nil
  then show ?case by simp
next
  case (Cons g groups)
  obtain h es where g: "g = (h, es)" by (cases g)
  show ?case
  proof (cases "(md5, entries) = g")
    case True
    with Cons.prems(2) g show ?thesis by (auto split: sum.splits)
  next
    case False
    with Cons.prems have "(md5, entries) \<in> set groups" by simp
    from Cons.IH[OF this Cons.prems(2)] show ?thesis
      unfolding g by (auto split: sum.splits)
  qed
qed

lemma dedup_apply_aborts:
  "isl (queue_deletions prefixes paths duplicates []) \<Longrightarrow>
     dedup_apply new_runner prefixes paths duplicates dry_run
       = (Some (projl (queue_deletions prefixes paths duplicates [])), None)"
  by (auto simp: dedup_apply_def split: sum.splits)

lemma lookup_paths_renders:
  "list_all (renders paths) entries \<Longrightarrow>
     \<exists>ps. lookup_paths paths entries = Inr ps \<and> map str ps = map Inr (map (rendered paths) entries)"
proof (induction entries)
  case Nil
  then show ?case by simp
next
  case (Cons e es)
  then obtain ps where ps: "lookup_paths paths es = Inr ps"
    "map str ps = map Inr (map (rendered paths) es)" by auto
  from Cons.prems obtain p s where p: "map_of paths (resource_id e) = Some p" "str p = Inr s"
    by (auto simp: renders_def split: option.splits sum.splits)
  then have "rendered paths e = s" by (simp add: rendered_def)
  with ps p show ?case by simp
qed

lemma find_map_comp: "List.find P (map f xs) = map_option f (List.find (\<lambda>x. P (f x)) xs)"
  by (induction xs) simp_all

lemma find_append_case:
  "List.find P (xs @ ys) = (case List.find P xs of Some x \<Rightarrow> Some x | None \<Rightarrow> List.find P ys)"
  by (induction xs) simp_all

lemma insort_key_map:
  "insort_key f (g x) (map g xs) = map g (insort_key (\<lambda>y. f (g y)) x xs)"
  by (induction xs) simp_all

lemma sort_key_map: "sort_key f (map g xs) = map g (sort_key (\<lambda>y. f (g y)) xs)"
  by (induction xs) (simp_all add: insort_key_map)

lemma zip_with_image: "zip xs (map f xs) = map (\<lambda>x. (x, f x)) xs"
  by (induction xs) simp_all

lemma sorted_pairs: "map fst (tl (sort_key snd (zip xs (map f xs)))) = tl (sort_key f xs)"
  by (simp add: zip_with_image sort_key_map map_tl comp_def)

text \<open>What one group contributes, when all its members render.\<close>

lemma to_delete_rendered:
  assumes "list_all (renders paths) entries"
  shows "to_delete prefixes paths entries
       = (case List.find (\<lambda>e. \<not> member_covered prefixes paths e) entries of
            Some e \<Rightarrow> Inl (NotCovered (rendered paths e))
          | None \<Rightarrow> Inr (deleted prefixes paths entries))"
    and "\<exists>ps. lookup_paths paths entries = Inr ps
           \<and> rank prefixes ps
               = (case List.find (\<lambda>e. \<not> member_covered prefixes paths e) entries of
                    Some e \<Rightarrow> Inl (NotCovered (rendered paths e))
                  | None \<Rightarrow> Inr (map (member_rank prefixes paths) entries))"
proof -
  from lookup_paths_renders[OF assms] obtain ps where lk: "lookup_paths paths entries = Inr ps"
    and rn: "map str ps = map Inr (map (rendered paths) entries)" by blast
  have r: "rank prefixes ps
               = (case List.find (\<lambda>e. \<not> member_covered prefixes paths e) entries of
                    Some e \<Rightarrow> Inl (NotCovered (rendered paths e))
                  | None \<Rightarrow> Inr (map (member_rank prefixes paths) entries))"
    unfolding rank_rendered[OF rn] find_map_comp member_covered_def[symmetric]
    by (cases "List.find (\<lambda>e. \<not> member_covered prefixes paths e) entries")
       (simp_all add: member_rank_def)
  with lk show "\<exists>ps. lookup_paths paths entries = Inr ps
           \<and> rank prefixes ps
               = (case List.find (\<lambda>e. \<not> member_covered prefixes paths e) entries of
                    Some e \<Rightarrow> Inl (NotCovered (rendered paths e))
                  | None \<Rightarrow> Inr (map (member_rank prefixes paths) entries))" by blast
  show "to_delete prefixes paths entries
       = (case List.find (\<lambda>e. \<not> member_covered prefixes paths e) entries of
            Some e \<Rightarrow> Inl (NotCovered (rendered paths e))
          | None \<Rightarrow> Inr (deleted prefixes paths entries))"
    by (cases "List.find (\<lambda>e. \<not> member_covered prefixes paths e) entries")
       (simp_all add: to_delete_def lk r sorted_pairs deleted_def)
qed

lemma queue_group_rendered:
  "list_all (renders paths) dups \<Longrightarrow>
     queue_group paths dups queued = Inr (queued @ map (deletion_of paths) dups)"
proof (induction dups arbitrary: queued)
  case Nil
  then show ?case by simp
next
  case (Cons d dups)
  from Cons.prems obtain p s where p: "map_of paths (resource_id d) = Some p" "str p = Inr s"
    by (auto simp: renders_def split: option.splits sum.splits)
  then have dr: "deletion_request paths d = Inr (deletion_of paths d)"
    by (simp add: deletion_request_def deletion_of_def rendered_def)
  from Cons.prems have "list_all (renders paths) dups" by simp
  from Cons.IH[OF this] dr show ?case by simp
qed

lemma deleted_members: "set (deleted prefixes paths entries) \<subseteq> set entries"
proof -
  have "set (tl (sort_key (member_rank prefixes paths) entries))
          \<subseteq> set (sort_key (member_rank prefixes paths) entries)"
    by (cases "sort_key (member_rank prefixes paths) entries") auto
  then show ?thesis by (simp add: deleted_def)
qed

lemma queue_deletions_rendered:
  "list_all (renders paths) (members duplicates) \<Longrightarrow>
     queue_deletions prefixes paths duplicates queued
       = (case List.find (\<lambda>e. \<not> member_covered prefixes paths e) (members duplicates) of
            Some e \<Rightarrow> Inl (NotCovered (rendered paths e))
          | None \<Rightarrow> Inr (queued @ deletions prefixes paths duplicates))"
proof (induction duplicates arbitrary: queued)
  case Nil
  then show ?case by (simp add: members_def deletions_def)
next
  case (Cons g groups)
  obtain md5 entries where g: "g = (md5, entries)" by (cases g)
  from Cons.prems have re: "list_all (renders paths) entries"
    and rg: "list_all (renders paths) (members groups)"
    by (simp_all add: members_def g)
  show ?case
  proof (cases "List.find (\<lambda>e. \<not> member_covered prefixes paths e) entries")
    case (Some e)
    then show ?thesis
      by (simp add: g to_delete_rendered(1)[OF re] members_def find_append_case)
  next
    case None
    from re deleted_members[of prefixes paths entries]
    have "list_all (renders paths) (deleted prefixes paths entries)"
      by (auto simp: list_all_iff)
    from queue_group_rendered[OF this]
    have q: "queue_group paths (deleted prefixes paths entries) queued
           = Inr (queued @ map (deletion_of paths) (deleted prefixes paths entries))" .
    have m: "List.find (\<lambda>e. \<not> member_covered prefixes paths e) (members ((md5, entries) # groups))
           = List.find (\<lambda>e. \<not> member_covered prefixes paths e) (members groups)"
      using None by (simp add: members_def find_append_case)
    show ?thesis
      unfolding g m
      by (cases "List.find (\<lambda>e. \<not> member_covered prefixes paths e) (members groups)")
         (simp_all add: to_delete_rendered(1)[OF re] None q Cons.IH[OF rg] deletions_def)
  qed
qed

text \<open>The member kept is the head of the stable sort, and the others are deleted.\<close>

lemma kept_first_least:
  assumes ne: "entries \<noteq> []"
  shows "kept prefixes paths entries = hd (sort_key (member_rank prefixes paths) entries)"
    and "mset (deleted prefixes paths entries) = mset entries - {#kept prefixes paths entries#}"
    and "\<exists>k < length entries. entries ! k = kept prefixes paths entries
           \<and> (\<forall>e \<in> set entries.
                 member_rank prefixes paths (kept prefixes paths entries) \<le> member_rank prefixes paths e)
           \<and> (\<forall>j < k. member_rank prefixes paths (kept prefixes paths entries)
                        < member_rank prefixes paths (entries ! j))"
proof -
  let ?f = "member_rank prefixes paths"
  let ?least = "\<lambda>e. list_all (\<lambda>e'. ?f e \<le> ?f e') entries"
  let ?ys = "sort_key ?f entries"
  have fin: "finite (?f ` set entries)" by simp
  have nonempty: "?f ` set entries \<noteq> {}" using ne by simp
  have iff: "?least e \<longleftrightarrow> ?f e = Min (?f ` set entries)" if "e \<in> set entries" for e
  proof
    assume l: "?least e"
    from Min_in[OF fin nonempty] obtain z where z: "z \<in> set entries" "Min (?f ` set entries) = ?f z"
      by auto
    with l have "?f e \<le> Min (?f ` set entries)" by (simp add: list_all_iff)
    moreover from that have "Min (?f ` set entries) \<le> ?f e" using fin by (intro Min_le) auto
    ultimately show "?f e = Min (?f ` set entries)" by simp
  next
    assume m: "?f e = Min (?f ` set entries)"
    have "?f e \<le> ?f e'" if "e' \<in> set entries" for e'
    proof -
      from that have "Min (?f ` set entries) \<le> ?f e'" using fin by (intro Min_le) auto
      with m show ?thesis by simp
    qed
    then show "?least e" by (simp add: list_all_iff)
  qed
  then have fl: "filter ?least entries = filter (\<lambda>e. ?f e = Min (?f ` set entries)) entries"
    by (intro filter_cong) auto
  show k: "kept prefixes paths entries = hd ?ys"
    unfolding kept_def fl using hd_sort_key_first_min[OF ne, of ?f] by simp
  have "set ?ys = set entries" by simp
  with ne have yne: "?ys \<noteq> []" by (metis set_empty)
  then have split: "?ys = hd ?ys # tl ?ys" by simp
  have "mset ?ys = mset entries" by simp
  then have "add_mset (hd ?ys) (mset (tl ?ys)) = mset entries" by (metis split mset.simps(2))
  then have "mset (tl ?ys) = mset entries - {#hd ?ys#}" by (metis add_mset_remove_trivial)
  then show "mset (deleted prefixes paths entries) = mset entries - {#kept prefixes paths entries#}"
    by (simp add: deleted_def k)
  from Min_in[OF fin nonempty] obtain z where z: "z \<in> set entries" "Min (?f ` set entries) = ?f z"
    by auto
  with iff have "?least z" by simp
  with z(1) have "filter ?least entries \<noteq> []" by (auto simp: filter_empty_conv)
  then obtain h t where ft: "filter ?least entries = h # t" by (cases "filter ?least entries") auto
  then have kh: "kept prefixes paths entries = h" by (simp add: kept_def)
  from ft have "List.find ?least entries = Some h" by (simp add: find_filter)
  then obtain k where kl: "k < length entries" and lk: "?least (entries ! k)" and hk: "h = entries ! k"
    and first: "\<forall>j < k. \<not> ?least (entries ! j)"
    by (auto simp: find_Some_iff)
  have a: "\<forall>e \<in> set entries. ?f (kept prefixes paths entries) \<le> ?f e"
    using lk kh hk by (simp add: list_all_iff)
  have b: "?f (kept prefixes paths entries) < ?f (entries ! j)" if "j < k" for j
  proof -
    from that first have "\<not> ?least (entries ! j)" by simp
    then obtain e' where e': "e' \<in> set entries" "\<not> ?f (entries ! j) \<le> ?f e'"
      by (auto simp: list_all_iff)
    with a have "?f (kept prefixes paths entries) \<le> ?f e'" by simp
    with e'(2) show ?thesis by simp
  qed
  from kl kh hk a b
  show "\<exists>k < length entries. entries ! k = kept prefixes paths entries
           \<and> (\<forall>e \<in> set entries. ?f (kept prefixes paths entries) \<le> ?f e)
           \<and> (\<forall>j < k. ?f (kept prefixes paths entries) < ?f (entries ! j))"
    by auto
qed

text \<open>
  C6. For a collection of duplicate groups whose members all have a path that renders, and an
  ordered list of prefixes. When every member's path starts with some prefix: \<open>rank\<close> gives
  each member of a group the index of the first prefix its path starts with; the inner loop of
  \<open>dedup_apply\<close> runs over the members of the group in the order of a stable sort by rank,
  without the first, and these are all the members of the group but one, the member kept, which
  is of the least rank and the first of that rank in the group's order; the requests
  \<open>dedup_apply\<close> adds to the runner are the delete requests of these members, group after
  group, and, unless the run is a dry run, it is the runner over exactly these requests that
  is executed. When some member's path starts with no prefix, \<open>dedup_apply\<close> ends with the
  error of \<open>rank\<close> for the first such member, and no runner is executed. And whatever the paths
  of the other groups, a group whose members render and one of which starts with no prefix makes
  \<open>rank\<close> raise and \<open>dedup_apply\<close> end with an error before any runner is executed.
\<close>

theorem dedup_ranking:
  fixes new_runner :: "api_request request list \<Rightarrow> (api_request, 'p) runner"
  shows
  "(list_all (renders paths) (members duplicates) \<longrightarrow>
      (if list_all (member_covered prefixes paths) (members duplicates)
       then (\<forall>(md5, entries) \<in> set duplicates.
                (\<exists>ps. lookup_paths paths entries = Inr ps
                     \<and> rank prefixes ps = Inr (map (member_rank prefixes paths) entries))
                \<and> (\<forall>e \<in> set entries.
                      member_rank prefixes paths e < length prefixes
                      \<and> starts_with (rendered paths e) (prefixes ! member_rank prefixes paths e)
                      \<and> (\<forall>j < member_rank prefixes paths e.
                             \<not> starts_with (rendered paths e) (prefixes ! j)))
                \<and> to_delete prefixes paths entries = Inr (deleted prefixes paths entries)
                \<and> (entries \<noteq> [] \<longrightarrow>
                      mset (deleted prefixes paths entries)
                        = mset entries - {#kept prefixes paths entries#}
                      \<and> (\<exists>k < length entries.
                            entries ! k = kept prefixes paths entries
                            \<and> (\<forall>e \<in> set entries.
                                  member_rank prefixes paths (kept prefixes paths entries)
                                    \<le> member_rank prefixes paths e)
                            \<and> (\<forall>j < k. member_rank prefixes paths (kept prefixes paths entries)
                                          < member_rank prefixes paths (entries ! j)))))
            \<and> queue_deletions prefixes paths duplicates [] = Inr (deletions prefixes paths duplicates)
            \<and> dedup_apply new_runner prefixes paths duplicates dry_run
                = (if dry_run then (None, None)
                   else (fst (execute (new_runner (deletions prefixes paths duplicates))),
                         Some (snd (execute (new_runner (deletions prefixes paths duplicates))))))
       else (\<exists>e \<in> set (members duplicates).
                List.find (\<lambda>e. \<not> member_covered prefixes paths e) (members duplicates) = Some e
                \<and> \<not> member_covered prefixes paths e
                \<and> queue_deletions prefixes paths duplicates [] = Inl (NotCovered (rendered paths e))
                \<and> dedup_apply new_runner prefixes paths duplicates dry_run
                    = (Some (NotCovered (rendered paths e)), None))))
   \<and> (\<forall>md5 entries.
         (md5, entries) \<in> set duplicates \<and> list_all (renders paths) entries
         \<and> \<not> list_all (member_covered prefixes paths) entries \<longrightarrow>
         (\<exists>ps e. lookup_paths paths entries = Inr ps \<and> e \<in> set entries
                 \<and> \<not> member_covered prefixes paths e
                 \<and> rank prefixes ps = Inl (NotCovered (rendered paths e)))
         \<and> (\<exists>x. dedup_apply new_runner prefixes paths duplicates dry_run = (Some x, None)))"
proof (intro conjI impI allI)
  assume rn: "list_all (renders paths) (members duplicates)"
  note qd = queue_deletions_rendered[OF rn, of prefixes "[]"]
  show "if list_all (member_covered prefixes paths) (members duplicates)
       then (\<forall>(md5, entries) \<in> set duplicates.
                (\<exists>ps. lookup_paths paths entries = Inr ps
                     \<and> rank prefixes ps = Inr (map (member_rank prefixes paths) entries))
                \<and> (\<forall>e \<in> set entries.
                      member_rank prefixes paths e < length prefixes
                      \<and> starts_with (rendered paths e) (prefixes ! member_rank prefixes paths e)
                      \<and> (\<forall>j < member_rank prefixes paths e.
                             \<not> starts_with (rendered paths e) (prefixes ! j)))
                \<and> to_delete prefixes paths entries = Inr (deleted prefixes paths entries)
                \<and> (entries \<noteq> [] \<longrightarrow>
                      mset (deleted prefixes paths entries)
                        = mset entries - {#kept prefixes paths entries#}
                      \<and> (\<exists>k < length entries.
                            entries ! k = kept prefixes paths entries
                            \<and> (\<forall>e \<in> set entries.
                                  member_rank prefixes paths (kept prefixes paths entries)
                                    \<le> member_rank prefixes paths e)
                            \<and> (\<forall>j < k. member_rank prefixes paths (kept prefixes paths entries)
                                          < member_rank prefixes paths (entries ! j)))))
            \<and> queue_deletions prefixes paths duplicates [] = Inr (deletions prefixes paths duplicates)
            \<and> dedup_apply new_runner prefixes paths duplicates dry_run
                = (if dry_run then (None, None)
                   else (fst (execute (new_runner (deletions prefixes paths duplicates))),
                         Some (snd (execute (new_runner (deletions prefixes paths duplicates))))))
       else (\<exists>e \<in> set (members duplicates).
                List.find (\<lambda>e. \<not> member_covered prefixes paths e) (members duplicates) = Some e
                \<and> \<not> member_covered prefixes paths e
                \<and> queue_deletions prefixes paths duplicates [] = Inl (NotCovered (rendered paths e))
                \<and> dedup_apply new_runner prefixes paths duplicates dry_run
                    = (Some (NotCovered (rendered paths e)), None))"
  proof (cases "list_all (member_covered prefixes paths) (members duplicates)")
    case True
    then have none: "List.find (\<lambda>e. \<not> member_covered prefixes paths e) (members duplicates) = None"
      by (simp add: find_None_iff list_all_iff)
    have q: "queue_deletions prefixes paths duplicates [] = Inr (deletions prefixes paths duplicates)"
      using qd none by simp
    have d: "dedup_apply new_runner prefixes paths duplicates dry_run
                = (if dry_run then (None, None)
                   else (fst (execute (new_runner (deletions prefixes paths duplicates))),
                         Some (snd (execute (new_runner (deletions prefixes paths duplicates))))))"
      unfolding dedup_apply_def q by (simp add: case_prod_beta)
    have g: "(\<exists>ps. lookup_paths paths entries = Inr ps
                     \<and> rank prefixes ps = Inr (map (member_rank prefixes paths) entries))
                \<and> (\<forall>e \<in> set entries.
                      member_rank prefixes paths e < length prefixes
                      \<and> starts_with (rendered paths e) (prefixes ! member_rank prefixes paths e)
                      \<and> (\<forall>j < member_rank prefixes paths e.
                             \<not> starts_with (rendered paths e) (prefixes ! j)))
                \<and> to_delete prefixes paths entries = Inr (deleted prefixes paths entries)
                \<and> (entries \<noteq> [] \<longrightarrow>
                      mset (deleted prefixes paths entries)
                        = mset entries - {#kept prefixes paths entries#}
                      \<and> (\<exists>k < length entries.
                            entries ! k = kept prefixes paths entries
                            \<and> (\<forall>e \<in> set entries.
                                  member_rank prefixes paths (kept prefixes paths entries)
                                    \<le> member_rank prefixes paths e)
                            \<and> (\<forall>j < k. member_rank prefixes paths (kept prefixes paths entries)
                                          < member_rank prefixes paths (entries ! j))))"
      if mem: "(md5, entries) \<in> set duplicates" for md5 entries
    proof -
      from mem have sub: "set entries \<subseteq> set (members duplicates)"
        by (force simp: members_def)
      with rn have re: "list_all (renders paths) entries" by (auto simp: list_all_iff)
      from sub True have cv: "list_all (member_covered prefixes paths) entries"
        by (auto simp: list_all_iff)
      then have n: "List.find (\<lambda>e. \<not> member_covered prefixes paths e) entries = None"
        by (simp add: find_None_iff list_all_iff)
      have 1: "\<exists>ps. lookup_paths paths entries = Inr ps
                     \<and> rank prefixes ps = Inr (map (member_rank prefixes paths) entries)"
        using to_delete_rendered(2)[OF re, of prefixes] n by simp
      have 2: "\<forall>e \<in> set entries.
                      member_rank prefixes paths e < length prefixes
                      \<and> starts_with (rendered paths e) (prefixes ! member_rank prefixes paths e)
                      \<and> (\<forall>j < member_rank prefixes paths e.
                             \<not> starts_with (rendered paths e) (prefixes ! j))"
        using cv first_index_first[of prefixes]
        by (simp add: list_all_iff member_covered_def member_rank_def)
      have 3: "to_delete prefixes paths entries = Inr (deleted prefixes paths entries)"
        using to_delete_rendered(1)[OF re, of prefixes] n by simp
      have 4: "mset (deleted prefixes paths entries) = mset entries - {#kept prefixes paths entries#}
                      \<and> (\<exists>k < length entries.
                            entries ! k = kept prefixes paths entries
                            \<and> (\<forall>e \<in> set entries.
                                  member_rank prefixes paths (kept prefixes paths entries)
                                    \<le> member_rank prefixes paths e)
                            \<and> (\<forall>j < k. member_rank prefixes paths (kept prefixes paths entries)
                                          < member_rank prefixes paths (entries ! j)))"
        if ne: "entries \<noteq> []"
        using kept_first_least(2)[OF ne, of prefixes paths] kept_first_least(3)[OF ne, of prefixes paths]
        by (rule conjI)
      from 1 2 3 4 show ?thesis by blast
    qed
    from g have "\<forall>(md5, entries) \<in> set duplicates.
                (\<exists>ps. lookup_paths paths entries = Inr ps
                     \<and> rank prefixes ps = Inr (map (member_rank prefixes paths) entries))
                \<and> (\<forall>e \<in> set entries.
                      member_rank prefixes paths e < length prefixes
                      \<and> starts_with (rendered paths e) (prefixes ! member_rank prefixes paths e)
                      \<and> (\<forall>j < member_rank prefixes paths e.
                             \<not> starts_with (rendered paths e) (prefixes ! j)))
                \<and> to_delete prefixes paths entries = Inr (deleted prefixes paths entries)
                \<and> (entries \<noteq> [] \<longrightarrow>
                      mset (deleted prefixes paths entries)
                        = mset entries - {#kept prefixes paths entries#}
                      \<and> (\<exists>k < length entries.
                            entries ! k = kept prefixes paths entries
                            \<and> (\<forall>e \<in> set entries.
                                  member_rank prefixes paths (kept prefixes paths entries)
                                    \<le> member_rank prefixes paths e)
                            \<and> (\<forall>j < k. member_rank prefixes paths (kept prefixes paths entries)
                                          < member_rank prefixes paths (entries ! j))))"
      by (intro ballI) (simp only: split_paired_all prod.case, blast)
    with q d show ?thesis unfolding if_P[OF True] by blast
  next
    case False
    then obtain e where fe: "List.find (\<lambda>e. \<not> member_covered prefixes paths e) (members duplicates) = Some e"
      by (cases "List.find (\<lambda>e. \<not> member_covered prefixes paths e) (members duplicates)")
         (auto simp: find_None_iff list_all_iff)
    then have e: "e \<in> set (members duplicates)" "\<not> member_covered prefixes paths e"
      by (auto simp: find_Some_iff)
    have q: "queue_deletions prefixes paths duplicates [] = Inl (NotCovered (rendered paths e))"
      using qd fe by simp
    have d: "dedup_apply new_runner prefixes paths duplicates dry_run
               = (Some (NotCovered (rendered paths e)), None)"
      unfolding dedup_apply_def q by simp
    from e fe q d show ?thesis unfolding if_not_P[OF False] by blast
  qed
next
  fix md5 entries
  assume a: "(md5, entries) \<in> set duplicates \<and> list_all (renders paths) entries
         \<and> \<not> list_all (member_covered prefixes paths) entries"
  then have mem: "(md5, entries) \<in> set duplicates" and re: "list_all (renders paths) entries"
    and nc: "\<not> list_all (member_covered prefixes paths) entries" by simp_all
  from nc obtain e where fe: "List.find (\<lambda>e. \<not> member_covered prefixes paths e) entries = Some e"
    by (cases "List.find (\<lambda>e. \<not> member_covered prefixes paths e) entries")
       (auto simp: find_None_iff list_all_iff)
  then have e: "e \<in> set entries" "\<not> member_covered prefixes paths e"
    by (auto simp: find_Some_iff)
  from to_delete_rendered(2)[OF re, of prefixes] fe e
  show "\<exists>ps e. lookup_paths paths entries = Inr ps \<and> e \<in> set entries
                 \<and> \<not> member_covered prefixes paths e
                 \<and> rank prefixes ps = Inl (NotCovered (rendered paths e))"
    by auto
  from to_delete_rendered(1)[OF re, of prefixes] fe
  have "isl (to_delete prefixes paths entries)" by simp
  from queue_deletions_raises[OF mem this]
  have "isl (queue_deletions prefixes paths duplicates [])" .
  from dedup_apply_aborts[OF this]
  show "\<exists>x. dedup_apply new_runner prefixes paths duplicates dry_run = (Some x, None)" by blast
qed

theorem dedup_ranking_witness:
  "list_all (renders album_paths) (members album)
   \<and> list_all (member_covered [''/Pictures/New/'', ''/Pictures/Old/''] album_paths) (members album)
   \<and> rank [''/Pictures/New/'', ''/Pictures/Old/''] [old_path, new_path, second_path] = Inr [1, 0, 0]
   \<and> kept [''/Pictures/New/'', ''/Pictures/Old/''] album_paths [old_copy, new_copy, second_copy] = new_copy
   \<and> to_delete [''/Pictures/New/'', ''/Pictures/Old/''] album_paths [old_copy, new_copy, second_copy]
       = Inr [second_copy, old_copy]
   \<and> queue_deletions [''/Pictures/New/'', ''/Pictures/Old/''] album_paths album []
       = Inr [Request (DeleteFile ''f3'') ''/Pictures/New/x2.jpg (f3)'',
              Request (DeleteFile ''f2'') ''/Pictures/Old/x.jpg (f2)'',
              Request (DeleteFile ''g2'') ''/Pictures/Old/y.jpg (g2)'']
   \<and> fst (dedup_apply batch_runner [''/Pictures/New/'', ''/Pictures/Old/''] album_paths album False) = None
   \<and> map_option yielded
        (snd (dedup_apply batch_runner [''/Pictures/New/'', ''/Pictures/Old/''] album_paths album False))
       = Some [RequestResult ''/Pictures/New/x2.jpg (f3)'' (Some ()) None,
               RequestResult ''/Pictures/Old/x.jpg (f2)'' (Some ()) None,
               RequestResult ''/Pictures/Old/y.jpg (g2)'' (Some ()) None]
   \<and> dedup_apply batch_runner [''/Pictures/New/'', ''/Pictures/Old/''] album_paths album True = (None, None)
   \<and> \<not> list_all (member_covered [''/Pictures/New/''] album_paths) (members album)
   \<and> dedup_apply batch_runner [''/Pictures/New/''] album_paths album False
       = (Some (NotCovered ''/Pictures/Old/x.jpg''), None)
   \<and> (''def'', [new_other, old_other]) \<in> set album
   \<and> list_all (renders album_paths) [new_other, old_other]
   \<and> \<not> list_all (member_covered [''/Pictures/New/''] album_paths) [new_other, old_other]
   \<and> (\<exists>x. dedup_apply batch_runner [''/Pictures/New/''] album_paths album True = (Some x, None))"
proof -
  let ?both = "[''/Pictures/New/'', ''/Pictures/Old/'']"
  let ?group = "[old_copy, new_copy, second_copy]"
  have rn: "list_all (renders album_paths) (members album)" by code_simp
  have c1: "list_all (member_covered ?both album_paths) (members album)" by code_simp
  have c2: "\<not> list_all (member_covered [''/Pictures/New/''] album_paths) (members album)" by code_simp
  have ds: "deletions ?both album_paths album
              = [Request (DeleteFile ''f3'') ''/Pictures/New/x2.jpg (f3)'',
                 Request (DeleteFile ''f2'') ''/Pictures/Old/x.jpg (f2)'',
                 Request (DeleteFile ''g2'') ''/Pictures/Old/y.jpg (g2)'']"
    by code_simp
  have lk: "lookup_paths album_paths ?group = Inr [old_path, new_path, second_path]" by code_simp
  have mr: "map (member_rank ?both album_paths) ?group = [1, 0, 0]" by code_simp
  have dl: "deleted ?both album_paths ?group = [second_copy, old_copy]" by code_simp
  have kp: "kept ?both album_paths ?group = new_copy" by code_simp
  have fd: "List.find (\<lambda>e. \<not> member_covered [''/Pictures/New/''] album_paths e) (members album)
              = Some old_copy" by code_simp
  have ro: "rendered album_paths old_copy = ''/Pictures/Old/x.jpg''" by code_simp
  have ex: "fst (execute (batch_runner
              [Request (DeleteFile ''f3'') ''/Pictures/New/x2.jpg (f3)'',
               Request (DeleteFile ''f2'') ''/Pictures/Old/x.jpg (f2)'',
               Request (DeleteFile ''g2'') ''/Pictures/Old/y.jpg (g2)''])) = None"
    "yielded (snd (execute (batch_runner
              [Request (DeleteFile ''f3'') ''/Pictures/New/x2.jpg (f3)'',
               Request (DeleteFile ''f2'') ''/Pictures/Old/x.jpg (f2)'',
               Request (DeleteFile ''g2'') ''/Pictures/Old/y.jpg (g2)''])))
       = [RequestResult ''/Pictures/New/x2.jpg (f3)'' (Some ()) None,
          RequestResult ''/Pictures/Old/x.jpg (f2)'' (Some ()) None,
          RequestResult ''/Pictures/Old/y.jpg (g2)'' (Some ()) None]"
    by code_simp+
  have g1: "(''abc'', ?group) \<in> set album" by (simp add: album_def)
  have g2: "(''def'', [new_other, old_other]) \<in> set album" by (simp add: album_def)
  have r2: "list_all (renders album_paths) [new_other, old_other]" by code_simp
  have n2: "\<not> list_all (member_covered [''/Pictures/New/''] album_paths) [new_other, old_other]"
    by code_simp
  note t1 = dedup_ranking[where paths = album_paths and duplicates = album and prefixes = ?both
      and new_runner = batch_runner, THEN conjunct1, THEN mp, OF rn, unfolded if_P[OF c1]]
  from t1[THEN conjunct1, THEN bspec, OF g1]
  have grp: "(\<exists>ps. lookup_paths album_paths ?group = Inr ps
                 \<and> rank ?both ps = Inr (map (member_rank ?both album_paths) ?group))
             \<and> to_delete ?both album_paths ?group = Inr (deleted ?both album_paths ?group)"
    unfolding prod.case by (intro conjI) (erule conjunct1, elim conjE, assumption)
  then have rk: "rank ?both [old_path, new_path, second_path] = Inr [1, 0, 0]"
    unfolding lk mr by simp
  from grp have td: "to_delete ?both album_paths ?group = Inr [second_copy, old_copy]"
    unfolding dl by (rule conjunct2)
  from t1[THEN conjunct2, THEN conjunct1]
  have qd: "queue_deletions ?both album_paths album []
       = Inr [Request (DeleteFile ''f3'') ''/Pictures/New/x2.jpg (f3)'',
              Request (DeleteFile ''f2'') ''/Pictures/Old/x.jpg (f2)'',
              Request (DeleteFile ''g2'') ''/Pictures/Old/y.jpg (g2)'']"
    unfolding ds .
  from t1[THEN conjunct2, THEN conjunct2, of False]
  have da: "fst (dedup_apply batch_runner ?both album_paths album False) = None"
    "map_option yielded (snd (dedup_apply batch_runner ?both album_paths album False))
       = Some [RequestResult ''/Pictures/New/x2.jpg (f3)'' (Some ()) None,
               RequestResult ''/Pictures/Old/x.jpg (f2)'' (Some ()) None,
               RequestResult ''/Pictures/Old/y.jpg (g2)'' (Some ()) None]"
    unfolding ds by (simp_all add: ex)
  from t1[THEN conjunct2, THEN conjunct2, of True]
  have dd: "dedup_apply batch_runner ?both album_paths album True = (None, None)" by simp
  note t2 = dedup_ranking[where paths = album_paths and duplicates = album
      and prefixes = "[''/Pictures/New/'']" and new_runner = batch_runner and dry_run = False,
      THEN conjunct1, THEN mp, OF rn, unfolded if_not_P[OF c2]]
  then have ab: "dedup_apply batch_runner [''/Pictures/New/''] album_paths album False
       = (Some (NotCovered ''/Pictures/Old/x.jpg''), None)"
    unfolding fd by (auto simp: ro)
  note t3 = dedup_ranking[where paths = album_paths and duplicates = album
      and prefixes = "[''/Pictures/New/'']" and new_runner = batch_runner and dry_run = True,
      THEN conjunct2, rule_format, OF conjI[OF g2 conjI[OF r2 n2]], THEN conjunct2]
  from rn c1 rk kp td qd da dd c2 ab g2 r2 n2 t3 show ?thesis by blast
qed


section \<open>commands/sync: state and synchronisation\<close>

text \<open>
  \<open>LocalFile\<close> (\<open>state.py\<close>), \<open>Snapshot\<close> with \<open>merge\<close> (\<open>api.py\<close>, lines 233-242), the
  arguments of the command that \<open>_sync\<close> reads, and \<open>SyncState\<close>; its field \<open>path\<close> is written
  \<open>state_path\<close>.
\<close>

datatype local_file = LocalFile (local_path: string) (mime_type: string) (md5_checksum: string)

datatype snapshot = Snapshot (entries: "resource list")

definition merge :: "snapshot \<Rightarrow> snapshot \<Rightarrow> snapshot" where
  "merge self other = Snapshot (entries self @ entries other)"

record sync_args =
  remote :: string
  dry_run :: bool

record sync_state =
  name :: string
  state_path :: string
  args :: sync_args
  snapshot :: snapshot
  local_files :: "local_file list"
  timestamp :: int
  stored :: bool

text \<open>\<open>os.path.join\<close> of two components, and the property \<open>full_path\<close>.\<close>

definition os_path_join :: "string \<Rightarrow> string \<Rightarrow> string" where
  "os_path_join a b =
     (if b \<noteq> [] \<and> hd b = CHR ''/'' then b
      else if a = [] \<or> last a = CHR ''/'' then a @ b
      else a @ ''/'' @ b)"

definition full_path :: "sync_state \<Rightarrow> string" where
  "full_path st = os_path_join (state_path st) (name st)"

text \<open>
  \<open>SyncState.store\<close> and \<open>SyncState.clear\<close> (\<open>state.py\<close>, lines 40-54). The disk maps a path to
  the text of the file there. Two fields stand for the libraries: \<open>dump st\<close> is
  \<open>json.dumps(SyncStateSchema().dump(st).data)\<close>, the text or the exception it raises, and
  \<open>write_text p text\<close> says whether writing the file raises; a write that does not raise puts
  the text at the path. Only exceptions that \<open>except Exception\<close> catches are modelled.
  \<open>os.remove\<close> raises on a missing file.
\<close>

record io =
  dump :: "sync_state \<Rightarrow> error + string"
  write_text :: "string \<Rightarrow> string \<Rightarrow> error option"

definition store ::
  "io \<Rightarrow> sync_state \<Rightarrow> (string \<rightharpoonup> string) \<Rightarrow> error option \<times> sync_state \<times> (string \<rightharpoonup> string)" where
  "store os st disk =
     (let st1 = st\<lparr>stored := True\<rparr> in
      case dump os st1 of
        Inl x \<Rightarrow> (Some x, st1\<lparr>stored := False\<rparr>, disk)
      | Inr text \<Rightarrow>
          (case write_text os (full_path st1) text of
             Some x \<Rightarrow> (Some x, st1\<lparr>stored := False\<rparr>, disk)
           | None \<Rightarrow> (None, st1, disk(full_path st1 \<mapsto> text))))"

definition clear ::
  "sync_state \<Rightarrow> (string \<rightharpoonup> string) \<Rightarrow> error option \<times> (string \<rightharpoonup> string)" where
  "clear st disk =
     (case disk (full_path st) of
        None \<Rightarrow> (Some OSError, disk)
      | Some text \<Rightarrow> (None, disk(full_path st := None)))"

text \<open>
  \<open>_by_md5\<close> (\<open>sync.py\<close>, lines 116-120): a \<open>defaultdict(list)\<close>, keys in the order of first
  insertion.
\<close>

fun dict_append :: "(string \<times> 'a list) list \<Rightarrow> string \<Rightarrow> 'a \<Rightarrow> (string \<times> 'a list) list" where
  "dict_append [] k v = [(k, [v])]"
| "dict_append ((k', vs) # d) k v =
     (if k' = k then (k', vs @ [v]) # d else (k', vs) # dict_append d k v)"

definition u_by_md5 :: "local_file list \<Rightarrow> (string \<times> local_file list) list" where
  "u_by_md5 fs = foldl (\<lambda>by_md5 f. dict_append by_md5 (md5_checksum f) f) [] fs"

text \<open>
  The diff of \<open>_sync\<close> (lines 73-100): \<open>remote_hashes\<close> lists \<open>entry.md5Checksum\<close> of the
  entries that are \<open>DriveFile\<close>s; \<open>to_sync\<close> is \<open>local.keys() - remote\<close>, a set in Python,
  listed in the order of the keys; \<open>queue_uploads\<close> is the loop that adds, for every key, the
  upload of \<open>local[key][0]\<close>. \<open>create_file\<close> is a method of folders only.
\<close>

fun remote_hashes :: "resource list \<Rightarrow> string option list" where
  "remote_hashes [] = []"
| "remote_hashes (DriveFile n i m ps c # es) = c # remote_hashes es"
| "remote_hashes (e # es) = remote_hashes es"

definition to_sync :: "(string \<times> local_file list) list \<Rightarrow> string option set \<Rightarrow> string list" where
  "to_sync local rem = filter (\<lambda>key. Some key \<notin> rem) (map fst local)"

fun create_file :: "resource \<Rightarrow> string \<Rightarrow> error + api_request" where
  "create_file (DriveFolder n i m ps) local_file_path = Inr (CreateFile i local_file_path)"
| "create_file r local_file_path = Inl AttributeError"

fun queue_uploads ::
  "resource \<Rightarrow> (string \<times> local_file list) list \<Rightarrow> string list \<Rightarrow> api_request request list
     \<Rightarrow> error + api_request request list" where
  "queue_uploads remote_folder local [] queued = Inr queued"
| "queue_uploads remote_folder local (key # keys) queued =
     (case map_of local key of
        None \<Rightarrow> Inl IndexError
      | Some [] \<Rightarrow> Inl IndexError
      | Some (f # _) \<Rightarrow>
          (case create_file remote_folder (local_path f) of
             Inl x \<Rightarrow> Inl x
           | Inr rq \<Rightarrow> queue_uploads remote_folder local keys (queued @ [Request rq (local_path f)])))"

definition sync_diff :: "local_file list \<Rightarrow> snapshot \<Rightarrow> string list" where
  "sync_diff fs exclusions = to_sync (u_by_md5 fs) (set (remote_hashes (entries exclusions)))"

text \<open>
  \<open>_sync\<close> (lines 71-113). \<open>remote_answers\<close> holds what the remote service answers:
  \<open>_uncacheable_exclusions(service, args)\<close> and \<open>ResourcePath.from_name(service, args.remote)\<close>,
  each a value or an exception. The result records the exception that ended the run, if any,
  the state and the disk as they were left, the runner's final state when it ran, and, in
  order, the events: the checkpoint saved, the runner executed, the checkpoint removed.
\<close>

record remote_answers =
  uncacheable_exclusions :: "error + snapshot"
  from_name :: "error + resource list"

datatype sync_event = Saved string | Executed | Removed string

record 'p sync_result =
  raised :: "error option"
  final_state :: sync_state
  final_disk :: "string \<rightharpoonup> string"
  uploads :: "(api_request, 'p) exec_state option"
  events :: "sync_event list"

definition u_sync ::
  "remote_answers \<Rightarrow> io \<Rightarrow> (api_request request list \<Rightarrow> (api_request, 'p) runner)
     \<Rightarrow> sync_state \<Rightarrow> (string \<rightharpoonup> string) \<Rightarrow> 'p sync_result" where
  "u_sync service os new_runner state disk =
     (let local = u_by_md5 (local_files state) in
      case uncacheable_exclusions service of
        Inl x \<Rightarrow> \<lparr>raised = Some x, final_state = state, final_disk = disk, uploads = None, events = []\<rparr>
      | Inr exclusions \<Rightarrow>
          (let state1 = state\<lparr>snapshot := merge (snapshot state) exclusions\<rparr> in
           case from_name service of
             Inl x \<Rightarrow> \<lparr>raised = Some x, final_state = state1, final_disk = disk, uploads = None, events = []\<rparr>
           | Inr found \<Rightarrow>
               (case unique found (remote (args state1)) False False of
                  Inl x \<Rightarrow> \<lparr>raised = Some x, final_state = state1, final_disk = disk, uploads = None, events = []\<rparr>
                | Inr remote_folder \<Rightarrow>
                    (case queue_uploads remote_folder local
                            (to_sync local (set (remote_hashes (entries (snapshot state1))))) [] of
                       Inl x \<Rightarrow> \<lparr>raised = Some x, final_state = state1, final_disk = disk, uploads = None, events = []\<rparr>
                     | Inr queued \<Rightarrow>
                         (case (if \<not> stored state1 then
                                  (case store os state1 disk of
                                     (x, st, d) \<Rightarrow> (x, st, d, [Saved (full_path state1)]))
                                else (None, state1, disk, [])) of
                            (Some x, state2, disk2, saved) \<Rightarrow>
                              \<lparr>raised = Some x, final_state = state2, final_disk = disk2, uploads = None, events = []\<rparr>
                          | (None, state2, disk2, saved) \<Rightarrow>
                              (if dry_run (args state2) then
                                 \<lparr>raised = None, final_state = state2, final_disk = disk2, uploads = None, events = saved\<rparr>
                               else
                                 (case execute (new_runner queued) of
                                    (Some x, st) \<Rightarrow>
                                      \<lparr>raised = Some x, final_state = state2, final_disk = disk2,
                                       uploads = Some st, events = saved @ [Executed]\<rparr>
                                  | (None, st) \<Rightarrow>
                                      (case clear state2 disk2 of
                                         (x, disk3) \<Rightarrow>
                                           \<lparr>raised = x, final_state = state2, final_disk = disk3,
                                            uploads = Some st,
                                            events = saved @ [Executed] @
                                              (if x = None then [Removed (full_path state2)] else [])\<rparr>))))))))"

text \<open>Four local files, two of them with the same content, and a remote folder holding the second.\<close>

definition holiday :: "local_file list" where
  "holiday = [LocalFile ''pics/a.jpg'' ''image/jpeg'' ''h1'',
              LocalFile ''pics/b.jpg'' ''image/jpeg'' ''h2'',
              LocalFile ''pics/c.jpg'' ''image/jpeg'' ''h3'',
              LocalFile ''pics/a_copy.jpg'' ''image/jpeg'' ''h1'']"

definition target :: resource where
  "target = DriveFolder ''Backup'' ''t'' ''application/vnd.google-apps.folder'' [''id0'']"

definition on_drive :: snapshot where
  "on_drive = Snapshot [target, DriveFile ''b.jpg'' ''r2'' ''image/jpeg'' [''t''] (Some ''h2''),
                        Resource ''doc'' ''application/vnd.google-apps.document'' [''t'']]"


text \<open>
  A fresh dry run: a state that was never stored, a remote service that answers, a disk that
  accepts every write, and the runner of \<open>_sync\<close>, sequential, on which every upload succeeds.
\<close>

definition trip_state :: sync_state where
  "trip_state =
     \<lparr>name = ''100-7.sync'', state_path = ''/home/u'',
      args = \<lparr>remote = ''/Backup'', dry_run = True\<rparr>,
      snapshot = Snapshot [], local_files = holiday, timestamp = 0, stored = False\<rparr>"

definition drive_answers :: remote_answers where
  "drive_answers = \<lparr>uncacheable_exclusions = Inr on_drive, from_name = Inr [target]\<rparr>"

definition plain_io :: io where
  "plain_io =
     \<lparr>dump = (\<lambda>st. Inr (if stored st then ''stored: true'' else ''stored: false'')),
      write_text = (\<lambda>p text. None)\<rparr>"

definition upload_runner :: "api_request request list \<Rightarrow> (api_request, unit) runner" where
  "upload_runner queued =
     \<lparr>requests = queued, min_backoff = 5, max_retries = 10, timeout = None,
      policies = DEFAULT_POLICIES,
      delegate = SequentialRequestRunner (\<lambda>n q. Response ()), elapsed = (\<lambda>n. int n)\<rparr>"

section \<open>The sync diff\<close>

lemma dict_append_keys:
  "map fst (dict_append d k v) = (if k \<in> set (map fst d) then map fst d else map fst d @ [k])"
proof (induction d)
  case Nil
  then show ?case by simp
next
  case (Cons kv d)
  obtain k' vs where kv: "kv = (k', vs)" by (cases kv)
  show ?case
  proof (cases "k' = k")
    case True
    then show ?thesis by (simp add: kv)
  next
    case False
    then show ?thesis using Cons.IH by (cases "k \<in> set (map fst d)") (simp_all add: kv)
  qed
qed

lemma dict_append_lookup:
  "map_of (dict_append d k v) h
     = (if h = k then Some ((case map_of d k of None \<Rightarrow> [] | Some vs \<Rightarrow> vs) @ [v]) else map_of d h)"
  by (induction d) auto

lemma by_md5_keys:
  "distinct (map fst d) \<Longrightarrow>
     distinct (map fst (foldl (\<lambda>by_md5 f. dict_append by_md5 (md5_checksum f) f) d fs))
     \<and> set (map fst (foldl (\<lambda>by_md5 f. dict_append by_md5 (md5_checksum f) f) d fs))
         = set (map fst d) \<union> md5_checksum ` set fs"
proof (induction fs arbitrary: d)
  case Nil
  then show ?case by simp
next
  case (Cons f fs)
  have "distinct (map fst (dict_append d (md5_checksum f) f))"
    using Cons.prems by (simp add: dict_append_keys)
  from Cons.IH[OF this] show ?case by (auto simp: dict_append_keys split: if_splits)
qed

lemma by_md5_lookup:
  "map_of (foldl (\<lambda>by_md5 f. dict_append by_md5 (md5_checksum f) f) d fs) h
     = (case map_of d h of
          None \<Rightarrow> (case filter (\<lambda>f. md5_checksum f = h) fs of [] \<Rightarrow> None | f # r \<Rightarrow> Some (f # r))
        | Some vs \<Rightarrow> Some (vs @ filter (\<lambda>f. md5_checksum f = h) fs))"
proof (induction fs arbitrary: d)
  case Nil
  then show ?case by (simp split: option.splits)
next
  case (Cons f fs)
  show ?case
    by (simp add: Cons.IH dict_append_lookup split: option.splits list.splits)
qed

lemma u_by_md5_keys:
  "distinct (map fst (u_by_md5 fs))" "set (map fst (u_by_md5 fs)) = md5_checksum ` set fs"
  using by_md5_keys[of "[]" fs] by (simp_all add: u_by_md5_def)

lemma u_by_md5_lookup:
  "map_of (u_by_md5 fs) h
     = (case filter (\<lambda>f. md5_checksum f = h) fs of [] \<Rightarrow> None | f # r \<Rightarrow> Some (f # r))"
  using by_md5_lookup[of "[]" fs h] by (simp add: u_by_md5_def)

lemma remote_hashes_set:
  "set (remote_hashes es) = {c. \<exists>n i m ps. DriveFile n i m ps c \<in> set es}"
proof (induction es)
  case Nil
  then show ?case by simp
next
  case (Cons e es)
  then show ?case by (cases e) auto
qed

lemma remote_hashes_append: "remote_hashes (xs @ ys) = remote_hashes xs @ remote_hashes ys"
proof (induction xs)
  case Nil
  then show ?case by simp
next
  case (Cons e es)
  then show ?case by (cases e) auto
qed

text \<open>The first local file, in enumeration order, with a given hash.\<close>

definition first_with :: "local_file list \<Rightarrow> string \<Rightarrow> local_file" where
  "first_with fs h = the (List.find (\<lambda>f. md5_checksum f = h) fs)"

text \<open>The upload of the first local file with a given hash into the folder with a given id.\<close>

definition upload_of :: "string \<Rightarrow> local_file list \<Rightarrow> string \<Rightarrow> api_request request" where
  "upload_of folder_id fs h =
     Request (CreateFile folder_id (local_path (first_with fs h))) (local_path (first_with fs h))"

lemma queue_uploads_first:
  "set keys \<subseteq> md5_checksum ` set fs \<Longrightarrow>
     queue_uploads (DriveFolder n i m ps) (u_by_md5 fs) keys queued
       = Inr (queued @ map (upload_of i fs) keys)"
proof (induction keys arbitrary: queued)
  case Nil
  then show ?case by simp
next
  case (Cons h keys)
  from Cons.prems have "h \<in> md5_checksum ` set fs" by simp
  then have "filter (\<lambda>f. md5_checksum f = h) fs \<noteq> []" by (auto simp: filter_empty_conv)
  then obtain f r where fr: "filter (\<lambda>f. md5_checksum f = h) fs = f # r"
    by (cases "filter (\<lambda>f. md5_checksum f = h) fs") auto
  then have fw: "first_with fs h = f" by (simp add: first_with_def find_filter)
  from Cons.prems have "set keys \<subseteq> md5_checksum ` set fs" by simp
  from Cons.IH[OF this] show ?case by (simp add: u_by_md5_lookup fr fw upload_of_def)
qed

lemma sync_diff_local: "set (sync_diff fs exclusions) \<subseteq> md5_checksum ` set fs"
  using u_by_md5_keys(2)[of fs] by (auto simp: sync_diff_def to_sync_def)

lemma store_keeps:
  "store os st disk = (x, st', disk') \<Longrightarrow>
     args st' = args st \<and> name st' = name st \<and> state_path st' = state_path st
     \<and> (x = None \<longrightarrow> stored st' \<and> disk' (full_path st) \<noteq> None)"
  by (auto simp: store_def Let_def full_path_def split: sum.splits option.splits)

text \<open>
  What \<open>_sync\<close> does once the remote service has answered and the target is a folder: the
  requests it hands to the runner are the uploads of the diff.
\<close>

lemma u_sync_queued:
  fixes new_runner :: "api_request request list \<Rightarrow> (api_request, 'p) runner"
    and state :: sync_state
  assumes ex: "uncacheable_exclusions service = Inr dyn"
    and fn: "from_name service = Inr [DriveFolder n i m ps]"
  defines "state1 \<equiv> state\<lparr>snapshot := merge (snapshot state) dyn\<rparr>"
  defines "queued \<equiv> map (upload_of i (local_files state))
                        (sync_diff (local_files state) (merge (snapshot state) dyn))"
  shows "u_sync service os new_runner state disk =
     (case (if \<not> stored state1 then
              (case store os state1 disk of
                 (x, st, d) \<Rightarrow> (x, st, d, [Saved (full_path state1)]))
            else (None, state1, disk, [])) of
        (Some x, state2, disk2, saved) \<Rightarrow>
          \<lparr>raised = Some x, final_state = state2, final_disk = disk2, uploads = None, events = []\<rparr>
      | (None, state2, disk2, saved) \<Rightarrow>
          (if dry_run (args state2) then
             \<lparr>raised = None, final_state = state2, final_disk = disk2, uploads = None, events = saved\<rparr>
           else
             (case execute (new_runner queued) of
                (Some x, st) \<Rightarrow>
                  \<lparr>raised = Some x, final_state = state2, final_disk = disk2,
                   uploads = Some st, events = saved @ [Executed]\<rparr>
              | (None, st) \<Rightarrow>
                  (case clear state2 disk2 of
                     (x, disk3) \<Rightarrow>
                       \<lparr>raised = x, final_state = state2, final_disk = disk3,
                        uploads = Some st,
                        events = saved @ [Executed] @
                          (if x = None then [Removed (full_path state2)] else [])\<rparr>))))"
proof -
  have u: "unique [DriveFolder n i m ps] (remote (args state1)) False False = Inr (DriveFolder n i m ps)"
    by (simp add: unique_def)
  have q: "queue_uploads (DriveFolder n i m ps) (u_by_md5 (local_files state))
             (to_sync (u_by_md5 (local_files state)) (set (remote_hashes (entries (snapshot state1))))) []
           = Inr queued"
    using queue_uploads_first[OF sync_diff_local[of "local_files state" "merge (snapshot state) dyn"],
        where n = n and i = i and m = m and ps = ps and queued = "[]"]
    by (simp add: queued_def state1_def sync_diff_def)
  show ?thesis
    unfolding u_sync_def Let_def ex fn sum.case state1_def[symmetric] u q ..
qed

lemma u_sync_uploads:
  fixes new_runner :: "api_request request list \<Rightarrow> (api_request, 'p) runner"
  assumes ex: "uncacheable_exclusions service = Inr dyn"
    and fn: "from_name service = Inr [DriveFolder n i m ps]"
    and nd: "\<not> dry_run (args state)"
    and st: "stored state \<or> fst (store os (state\<lparr>snapshot := merge (snapshot state) dyn\<rparr>) disk) = None"
  defines "queued \<equiv> map (upload_of i (local_files state))
                        (sync_diff (local_files state) (merge (snapshot state) dyn))"
  shows "uploads (u_sync service os new_runner state disk) = Some (snd (execute (new_runner queued)))"
    and "fst (execute (new_runner queued)) \<noteq> None \<Longrightarrow>
           raised (u_sync service os new_runner state disk) = fst (execute (new_runner queued))"
proof -
  let ?state1 = "state\<lparr>snapshot := merge (snapshot state) dyn\<rparr>"
  obtain x e where e: "execute (new_runner queued) = (x, e)" by (cases "execute (new_runner queued)")
  note eq = u_sync_queued[OF ex fn, of os new_runner state disk, folded queued_def]
  show "uploads (u_sync service os new_runner state disk) = Some (snd (execute (new_runner queued)))"
  proof (cases "stored state")
    case True
    then show ?thesis unfolding eq using nd e
      by (cases x; cases "clear ?state1 disk") simp_all
  next
    case False
    with st obtain s2 d2 where s: "store os ?state1 disk = (None, s2, d2)"
      by (cases "store os ?state1 disk") auto
    from store_keeps[OF s] nd have "\<not> dry_run (args s2)" by simp
    then show ?thesis unfolding eq using False s e
      by (cases x; cases "clear s2 d2") simp_all
  qed
  show "raised (u_sync service os new_runner state disk) = fst (execute (new_runner queued))"
    if r: "fst (execute (new_runner queued)) \<noteq> None"
  proof (cases "stored state")
    case True
    then show ?thesis unfolding eq using nd e r by (cases x) simp_all
  next
    case False
    with st obtain s2 d2 where s: "store os ?state1 disk = (None, s2, d2)"
      by (cases "store os ?state1 disk") auto
    from store_keeps[OF s] nd have "\<not> dry_run (args s2)" by simp
    then show ?thesis unfolding eq using False s e r by (cases x) simp_all
  qed
qed

text \<open>
  C7. The hashes to upload are exactly the local hashes that are no \<open>md5Checksum\<close> of a
  \<open>DriveFile\<close> entry of the exclusion snapshot, each once; in whatever order these hashes are
  enumerated, one upload is queued for each, of the first local file with that hash in
  enumeration order; \<open>_sync\<close>, with the state's snapshot merged with the contents of the target
  folder as the exclusion snapshot, hands exactly the uploads of the diff to the runner it
  executes, here in the order of the local keys, the order of a Python set being open; and
  against the snapshot merged with entries that hold a \<open>DriveFile\<close> for every uploaded hash the
  diff is empty.
\<close>

theorem sync_diff_exact:
  "set (sync_diff fs exclusions)
     = md5_checksum ` set fs - {h. \<exists>n i m ps. DriveFile n i m ps (Some h) \<in> set (entries exclusions)}
   \<and> distinct (sync_diff fs exclusions)
   \<and> (\<forall>keys n i m ps.
         set keys \<subseteq> set (sync_diff fs exclusions) \<longrightarrow>
         queue_uploads (DriveFolder n i m ps) (u_by_md5 fs) keys [] = Inr (map (upload_of i fs) keys))
   \<and> (\<forall>h \<in> set (sync_diff fs exclusions).
         List.find (\<lambda>f. md5_checksum f = h) fs = Some (first_with fs h))
   \<and> (\<forall>service os (new_runner :: api_request request list \<Rightarrow> (api_request, 'p) runner)
          state disk dyn n i m ps.
         local_files state = fs \<and> merge (snapshot state) dyn = exclusions
         \<and> uncacheable_exclusions service = Inr dyn
         \<and> from_name service = Inr [DriveFolder n i m ps]
         \<and> \<not> dry_run (args state)
         \<and> (stored state \<or> fst (store os (state\<lparr>snapshot := exclusions\<rparr>) disk) = None)
         \<longrightarrow> uploads (u_sync service os new_runner state disk)
               = Some (snd (execute (new_runner (map (upload_of i fs) (sync_diff fs exclusions)))))
             \<and> (fst (execute (new_runner (map (upload_of i fs) (sync_diff fs exclusions)))) \<noteq> None
                \<longrightarrow> raised (u_sync service os new_runner state disk)
                    = fst (execute (new_runner (map (upload_of i fs) (sync_diff fs exclusions))))))
   \<and> (\<forall>uploaded.
         (\<forall>h \<in> set (sync_diff fs exclusions).
            \<exists>n i m ps. DriveFile n i m ps (Some h) \<in> set (entries uploaded))
         \<longrightarrow> sync_diff fs (merge exclusions uploaded) = [])"
proof (intro conjI allI ballI impI)
  show s: "set (sync_diff fs exclusions)
     = md5_checksum ` set fs - {h. \<exists>n i m ps. DriveFile n i m ps (Some h) \<in> set (entries exclusions)}"
    using u_by_md5_keys(2)[of fs]
    by (auto simp: sync_diff_def to_sync_def remote_hashes_set)
  show "distinct (sync_diff fs exclusions)"
    using u_by_md5_keys(1)[of fs] by (simp add: sync_diff_def to_sync_def)
  show "queue_uploads (DriveFolder n i m ps) (u_by_md5 fs) keys [] = Inr (map (upload_of i fs) keys)"
    if "set keys \<subseteq> set (sync_diff fs exclusions)" for keys n i m ps
  proof -
    from that sync_diff_local[of fs exclusions] have "set keys \<subseteq> md5_checksum ` set fs" by blast
    from queue_uploads_first[OF this, of n i m ps "[]"] show ?thesis by simp
  qed
  show "List.find (\<lambda>f. md5_checksum f = h) fs = Some (first_with fs h)"
    if "h \<in> set (sync_diff fs exclusions)" for h
  proof -
    from that s have "h \<in> md5_checksum ` set fs" by auto
    then have "List.find (\<lambda>f. md5_checksum f = h) fs \<noteq> None" by (auto simp: find_None_iff)
    then show ?thesis by (auto simp: first_with_def)
  qed
  show "sync_diff fs (merge exclusions uploaded) = []"
    if u: "\<forall>h \<in> set (sync_diff fs exclusions).
            \<exists>n i m ps. DriveFile n i m ps (Some h) \<in> set (entries uploaded)" for uploaded
  proof -
    have "Some key \<in> set (remote_hashes (entries exclusions)) \<union> set (remote_hashes (entries uploaded))"
      if k: "key \<in> set (map fst (u_by_md5 fs))" for key
    proof (cases "Some key \<in> set (remote_hashes (entries exclusions))")
      case True
      then show ?thesis by simp
    next
      case False
      with k have "key \<in> set (sync_diff fs exclusions)" by (simp add: sync_diff_def to_sync_def)
      with u show ?thesis by (auto simp: remote_hashes_set)
    qed
    then show ?thesis
      by (simp add: sync_diff_def to_sync_def merge_def remote_hashes_append filter_empty_conv)
  qed
next
  fix service :: remote_answers and os :: io and state :: sync_state and disk dyn n i m ps
    and new_runner :: "api_request request list \<Rightarrow> (api_request, 'p) runner"
  assume a: "local_files state = fs \<and> merge (snapshot state) dyn = exclusions
         \<and> uncacheable_exclusions service = Inr dyn
         \<and> from_name service = Inr [DriveFolder n i m ps]
         \<and> \<not> dry_run (args state)
         \<and> (stored state \<or> fst (store os (state\<lparr>snapshot := exclusions\<rparr>) disk) = None)"
  then have ex: "uncacheable_exclusions service = Inr dyn"
    and fn: "from_name service = Inr [DriveFolder n i m ps]"
    and nd: "\<not> dry_run (args state)"
    and st: "stored state \<or> fst (store os (state\<lparr>snapshot := merge (snapshot state) dyn\<rparr>) disk) = None"
    and lf: "local_files state = fs" and mg: "merge (snapshot state) dyn = exclusions"
    by simp_all
  from u_sync_uploads(1)[OF ex fn nd st, where new_runner = new_runner]
  show "uploads (u_sync service os new_runner state disk)
               = Some (snd (execute (new_runner (map (upload_of i fs) (sync_diff fs exclusions)))))"
    unfolding lf mg .
  assume "fst (execute (new_runner (map (upload_of i fs) (sync_diff fs exclusions)))) \<noteq> None"
  with u_sync_uploads(2)[OF ex fn nd st, where new_runner = new_runner]
  show "raised (u_sync service os new_runner state disk)
                    = fst (execute (new_runner (map (upload_of i fs) (sync_diff fs exclusions))))"
    unfolding lf mg by simp
qed

text \<open>
  What the remote folder holds in addition after the two uploads, and the state of a run that
  is not a dry run.
\<close>

definition just_uploaded :: snapshot where
  "just_uploaded = Snapshot [DriveFile ''a.jpg'' ''u1'' ''image/jpeg'' [''t''] (Some ''h1''),
                             DriveFile ''c.jpg'' ''u3'' ''image/jpeg'' [''t''] (Some ''h3'')]"

definition upload_state :: sync_state where
  "upload_state = trip_state\<lparr>args := \<lparr>remote = ''/Backup'', dry_run = False\<rparr>\<rparr>"

theorem sync_diff_exact_witness:
  "set (sync_diff holiday on_drive) = {''h1'', ''h3''}
   \<and> set [''h3'', ''h1''] \<subseteq> set (sync_diff holiday on_drive)
   \<and> queue_uploads target (u_by_md5 holiday) [''h3'', ''h1''] []
       = Inr [Request (CreateFile ''t'' ''pics/c.jpg'') ''pics/c.jpg'',
              Request (CreateFile ''t'' ''pics/a.jpg'') ''pics/a.jpg'']
   \<and> local_files upload_state = holiday \<and> merge (snapshot upload_state) on_drive = on_drive
   \<and> uncacheable_exclusions drive_answers = Inr on_drive
   \<and> from_name drive_answers = Inr [target]
   \<and> \<not> dry_run (args upload_state)
   \<and> fst (store plain_io (upload_state\<lparr>snapshot := on_drive\<rparr>) Map.empty) = None
   \<and> map_option (\<lambda>st. set (map result_id (yielded st)))
        (uploads (u_sync drive_answers plain_io upload_runner upload_state Map.empty))
       = Some {''pics/a.jpg'', ''pics/c.jpg''}
   \<and> list_all (\<lambda>h. Some h \<in> set (remote_hashes (entries just_uploaded))) (sync_diff holiday on_drive)
   \<and> sync_diff holiday (merge on_drive just_uploaded) = []"
proof -
  have d: "sync_diff holiday on_drive = [''h1'', ''h3'']" by code_simp
  have f: "map (upload_of ''t'' holiday) [''h3'', ''h1'']
           = [Request (CreateFile ''t'' ''pics/c.jpg'') ''pics/c.jpg'',
              Request (CreateFile ''t'' ''pics/a.jpg'') ''pics/a.jpg'']"
    "map (upload_of ''t'' holiday) [''h1'', ''h3'']
           = [Request (CreateFile ''t'' ''pics/a.jpg'') ''pics/a.jpg'',
              Request (CreateFile ''t'' ''pics/c.jpg'') ''pics/c.jpg'']"
    by code_simp+
  have u: "list_all (\<lambda>h. Some h \<in> set (remote_hashes (entries just_uploaded))) (sync_diff holiday on_drive)"
    unfolding d by (simp add: just_uploaded_def)
  then have u': "\<forall>h \<in> set (sync_diff holiday on_drive).
            \<exists>n i m ps. DriveFile n i m ps (Some h) \<in> set (entries just_uploaded)"
    by (simp add: list_all_iff remote_hashes_set)
  have h: "local_files upload_state = holiday" "merge (snapshot upload_state) on_drive = on_drive"
    "uncacheable_exclusions drive_answers = Inr on_drive"
    "from_name drive_answers
       = Inr [DriveFolder ''Backup'' ''t'' ''application/vnd.google-apps.folder'' [''id0'']]"
    "\<not> dry_run (args upload_state)"
    by (simp_all add: upload_state_def trip_state_def drive_answers_def target_def merge_def on_drive_def)
  have so: "fst (store plain_io (upload_state\<lparr>snapshot := on_drive\<rparr>) Map.empty) = None"
    by (simp add: store_def plain_io_def Let_def)
  have ex: "yielded (snd (execute (upload_runner
              [Request (CreateFile ''t'' ''pics/a.jpg'') ''pics/a.jpg'',
               Request (CreateFile ''t'' ''pics/c.jpg'') ''pics/c.jpg''])))
            = [RequestResult ''pics/a.jpg'' (Some ()) None, RequestResult ''pics/c.jpg'' (Some ()) None]"
    by code_simp
  note t = sync_diff_exact[of holiday on_drive, where 'p = unit]
  note t3 = t[THEN conjunct2, THEN conjunct2, THEN conjunct1, rule_format]
  note t5 = t[THEN conjunct2, THEN conjunct2, THEN conjunct2, THEN conjunct2, THEN conjunct1,
      rule_format]
  note t6 = t[THEN conjunct2, THEN conjunct2, THEN conjunct2, THEN conjunct2, THEN conjunct2,
      rule_format]
  have k: "set [''h3'', ''h1''] \<subseteq> set (sync_diff holiday on_drive)" unfolding d by simp
  have q: "queue_uploads target (u_by_md5 holiday) [''h3'', ''h1''] []
       = Inr [Request (CreateFile ''t'' ''pics/c.jpg'') ''pics/c.jpg'',
              Request (CreateFile ''t'' ''pics/a.jpg'') ''pics/a.jpg'']"
    unfolding target_def f(1)[symmetric] by (rule t3[OF k])
  have pre: "local_files upload_state = holiday \<and> merge (snapshot upload_state) on_drive = on_drive
         \<and> uncacheable_exclusions drive_answers = Inr on_drive
         \<and> from_name drive_answers
             = Inr [DriveFolder ''Backup'' ''t'' ''application/vnd.google-apps.folder'' [''id0'']]
         \<and> \<not> dry_run (args upload_state)
         \<and> (stored upload_state \<or> fst (store plain_io (upload_state\<lparr>snapshot := on_drive\<rparr>) Map.empty) = None)"
    using h so by simp
  from t5[OF pre, THEN conjunct1, of upload_runner]
  have r: "map_option (\<lambda>st. set (map result_id (yielded st)))
        (uploads (u_sync drive_answers plain_io upload_runner upload_state Map.empty))
       = Some {''pics/a.jpg'', ''pics/c.jpg''}"
    unfolding d f(2) by (simp add: ex)
  have c: "sync_diff holiday (merge on_drive just_uploaded) = []"
    by (rule t6) (use u' in blast)
  have h4: "from_name drive_answers = Inr [target]" by (simp add: drive_answers_def)
  from d k q h(1,2,3,5) h4 so r u c show ?thesis by simp
qed

section \<open>The checkpoint\<close>

text \<open>
  C10. \<open>store\<close> sets \<open>stored\<close> before it serialises and writes. When the serialisation or
  the write raises, the exception is passed on with \<open>stored\<close> back at \<open>False\<close> and the disk as
  it was; when neither raises, \<open>stored\<close> is \<open>True\<close> and the file holds the serialised state:
  after \<open>store\<close>, \<open>stored\<close> is \<open>True\<close> exactly when nothing was raised.
\<close>

theorem store_rolls_back:
  "(case store os st disk of
      (None, st', disk') \<Rightarrow>
        stored st'
        \<and> dump os (st\<lparr>stored := True\<rparr>) = Inr (the (disk' (full_path st)))
        \<and> write_text os (full_path st) (the (disk' (full_path st))) = None
        \<and> disk' = disk(full_path st \<mapsto> the (disk' (full_path st)))
    | (Some x, st', disk') \<Rightarrow>
        \<not> stored st' \<and> disk' = disk
        \<and> (dump os (st\<lparr>stored := True\<rparr>) = Inl x
            \<or> (\<exists>text. dump os (st\<lparr>stored := True\<rparr>) = Inr text
                       \<and> write_text os (full_path st) text = Some x)))
   \<and> stored (fst (snd (store os st disk))) = (fst (store os st disk) = None)"
  by (auto simp: store_def Let_def full_path_def split: sum.splits option.splits)

text \<open>
  C8, at a dry run. \<open>_sync\<close> stores the checkpoint before it looks at \<open>dry_run\<close>, and the
  dry run returns without \<open>clear\<close>: the run ends normally, without uploads, with the
  checkpoint written to the disk and left there.
\<close>

theorem dry_run_leaves_checkpoint:
  "raised (u_sync drive_answers plain_io upload_runner trip_state Map.empty) = None
   \<and> uploads (u_sync drive_answers plain_io upload_runner trip_state Map.empty) = None
   \<and> events (u_sync drive_answers plain_io upload_runner trip_state Map.empty)
       = [Saved ''/home/u/100-7.sync'']
   \<and> final_disk (u_sync drive_answers plain_io upload_runner trip_state Map.empty) ''/home/u/100-7.sync''
       = Some ''stored: true''
   \<and> stored (final_state (u_sync drive_answers plain_io upload_runner trip_state Map.empty))"
proof -
  have q: "queue_uploads target (u_by_md5 holiday)
             (to_sync (u_by_md5 holiday) (set (remote_hashes (entries (merge (Snapshot []) on_drive))))) []
           = Inr [Request (CreateFile ''t'' ''pics/a.jpg'') ''pics/a.jpg'',
                  Request (CreateFile ''t'' ''pics/c.jpg'') ''pics/c.jpg'']"
    by code_simp
  have u: "unique [target] ''/Backup'' False False = Inr target" by (simp add: unique_def)
  have "u_sync drive_answers plain_io upload_runner trip_state Map.empty
        = \<lparr>raised = None,
           final_state = trip_state\<lparr>snapshot := merge (Snapshot []) on_drive, stored := True\<rparr>,
           final_disk = [''/home/u/100-7.sync'' \<mapsto> ''stored: true''], uploads = None,
           events = [Saved ''/home/u/100-7.sync'']\<rparr>"
    unfolding u_sync_def Let_def
    by (simp add: drive_answers_def)
       (simp add: trip_state_def u q store_def plain_io_def full_path_def os_path_join_def)
  then show ?thesis by simp
qed


text \<open>
  In general: a dry run never removes the checkpoint, and stores it when it was not stored;
  the runner is executed only with the checkpoint stored; and the checkpoint is removed only
  after the runner has returned with nothing pending.
\<close>

lemma run_loop_returns_empty:
  "fst (run_loop r st) = None \<Longrightarrow> pending (snd (run_loop r st)) = []"
proof (induction r st rule: run_loop.induct)
  case (1 r st)
  show ?case
  proof (cases "loop_condition r st")
    case False
    with "1.prems" show ?thesis by (subst (asm) run_loop.simps) simp
  next
    case True
    obtain x st' where rp: "run_pass r st = (x, st')" by (cases "run_pass r st")
    show ?thesis
    proof (cases x)
      case (Some e)
      with "1.prems" True rp show ?thesis by (subst (asm) run_loop.simps) simp
    next
      case None
      show ?thesis
      proof (cases "pending st' = []")
        case e: True
        with True rp None show ?thesis by (subst run_loop.simps) simp
      next
        case ne: False
        obtain y st'' where bo: "back_off st' = (y, st'')" by (cases "back_off st'")
        show ?thesis
        proof (cases y)
          case (Some e)
          with "1.prems" True rp None ne bo show ?thesis by (subst (asm) run_loop.simps) simp
        next
          case n: None
          have eq: "run_loop r st = run_loop r st''"
            by (subst run_loop.simps) (use True rp None ne bo n in simp)
          from "1.IH"[OF True rp[symmetric] None ne bo[symmetric] n] "1.prems" eq
          show ?thesis by simp
        qed
      qed
    qed
  qed
qed

lemma sync_checkpoint_order:
  fixes new_runner :: "api_request request list \<Rightarrow> (api_request, 'p) runner"
    and service os state disk
  defines "r \<equiv> u_sync service os new_runner state disk"
  shows "(dry_run (args state) \<longrightarrow>
            uploads r = None \<and> (\<forall>p. Removed p \<notin> set (events r))
            \<and> (raised r = None \<and> \<not> stored state \<longrightarrow>
                  events r = [Saved (full_path state)] \<and> stored (final_state r)
                  \<and> final_disk r (full_path state) \<noteq> None))
         \<and> (Executed \<in> set (events r) \<longrightarrow>
               stored (final_state r)
               \<and> (stored state \<or> hd (events r) = Saved (full_path state)))
         \<and> (\<forall>p. Removed p \<in> set (events r) \<longrightarrow>
               raised r = None \<and> last (butlast (events r)) = Executed
               \<and> (\<exists>st. uploads r = Some st \<and> pending st = []))"
proof -
  have fp: "full_path (state\<lparr>snapshot := s\<rparr>) = full_path state" for s
    by (simp add: full_path_def)
  have ex: "pending st = []" if "execute rr = (None, st)" for rr :: "(api_request, 'p) runner" and st
    using run_loop_returns_empty[of rr "initial_state rr"] that by (simp add: execute_def)
  show ?thesis
    unfolding r_def u_sync_def Let_def
    by (auto split: sum.splits option.splits prod.splits if_splits
        dest!: store_keeps ex simp: fp clear_def)
qed

end
